theory Spec2Isabelle
  imports Main "HOL-Library.AList" "HOL-Library.Multiset"
begin

section \<open>The world outside the program\<close>

text \<open>
  The program (\<^verbatim>\<open>src/index.ts\<close>) is a command-line tool: it scans a directory
  with \<^verbatim>\<open>glob\<close>, hashes every matched file, groups the files by digest and replaces
  every file but the first of a group by a relative symbolic link to the first.

  The file system is a finite map from absolute, normalised paths to nodes; directories
  are implicit. What the program gets from libraries that are not part of its sources
  (the SHA-1 function, the result of \<^verbatim>\<open>glob\<close>, \<^verbatim>\<open>util.format\<close> on a format
  string, and the failures the operating system may answer with) is collected in the
  record \<open>os_env\<close>. A call on a path fails with the error the record gives for this
  call and path, if it gives one (no space, no permission, a file system without links);
  otherwise it fails only for what the map itself shows (nothing at the path to remove or
  read, something at the path to link).
\<close>

datatype errno = ENOENT | EEXIST | ELOOP | EACCES | ENOSPC | EIO | EPERM

datatype node = RegFile string | SymLink string

record world =
  files :: "string \<rightharpoonup> node"
  cwd :: string

record os_env =
  sha1_hex :: "string \<Rightarrow> string"
  glob :: "string \<Rightarrow> errno + string list"
  util_format :: "string \<Rightarrow> string list \<Rightarrow> string"
  chdir_fault :: "string \<Rightarrow> errno option"
  read_fault :: "string \<Rightarrow> errno option"
  unlink_fault :: "string \<Rightarrow> errno option"
  symlink_fault :: "string \<Rightarrow> errno option"

subsection \<open>Strings and numbers as JavaScript prints them\<close>

text \<open>\<^verbatim>\<open>Array.prototype.join\<close>.\<close>

fun join_with :: "string \<Rightarrow> string list \<Rightarrow> string" where
  "join_with sep [] = []"
| "join_with sep [x] = x"
| "join_with sep (x # y # ys) = x @ sep @ join_with sep (y # ys)"

definition digit_char :: "nat \<Rightarrow> char" where
  "digit_char d = ''0123456789'' ! d"

fun show_nat :: "nat \<Rightarrow> string" where
  "show_nat n = (if n < 10 then [digit_char n] else show_nat (n div 10) @ [digit_char (n mod 10)])"

declare show_nat.simps [simp del]

definition show_int :: "int \<Rightarrow> string" where
  "show_int i = (if i < 0 then CHR ''-'' # show_nat (nat (- i)) else show_nat (nat i))"

text \<open>
  \<^verbatim>\<open>console.log(a, b, ...)\<close> writes its arguments separated by one space; when the
  first argument holds a \<^verbatim>\<open>%\<close> and more arguments follow, it is a format string and
  the line is what \<^verbatim>\<open>util.format\<close> makes of it.
\<close>

definition console_log :: "os_env \<Rightarrow> string list \<Rightarrow> string" where
  "console_log env args =
     (case args of
        [] \<Rightarrow> []
      | a # as \<Rightarrow> if CHR ''%'' \<in> set a \<and> as \<noteq> [] then util_format env a as
                  else join_with '' '' args)"

subsection \<open>Paths (the POSIX flavour of Node's \<^verbatim>\<open>path\<close> module)\<close>

text \<open>\<^verbatim>\<open>p.split('/')\<close>.\<close>

fun split_path :: "string \<Rightarrow> string list" where
  "split_path [] = [[]]"
| "split_path (c # cs) =
     (if c = CHR ''/'' then [] # split_path cs
      else (case split_path cs of [] \<Rightarrow> [[c]] | s # ss \<Rightarrow> (c # s) # ss))"

definition path_components :: "string \<Rightarrow> string list" where
  "path_components p = filter (\<lambda>s. s \<noteq> []) (split_path p)"

text \<open>One step of normalisation: \<^verbatim>\<open>.\<close> stays, \<^verbatim>\<open>..\<close> goes up (the root is its own parent).\<close>

definition norm_step :: "string list \<Rightarrow> string \<Rightarrow> string list" where
  "norm_step stack s =
     (if s = ''.'' then stack else if s = ''..'' then butlast stack else stack @ [s])"

definition normalize_segs :: "string list \<Rightarrow> string list" where
  "normalize_segs cs = foldl norm_step [] cs"

definition abs_path :: "string list \<Rightarrow> string" where
  "abs_path segs = (if segs = [] then ''/'' else concat (map (\<lambda>s. CHR ''/'' # s) segs))"

definition is_absolute :: "string \<Rightarrow> bool" where
  "is_absolute p = (case p of [] \<Rightarrow> False | c # _ \<Rightarrow> c = CHR ''/'')"

definition resolve_segs :: "string \<Rightarrow> string \<Rightarrow> string list" where
  "resolve_segs base p =
     normalize_segs (path_components (if is_absolute p then p else base @ ''/'' @ p))"

text \<open>\<^verbatim>\<open>path.resolve(base, p)\<close> for an absolute \<open>base\<close>.\<close>

definition path_resolve :: "string \<Rightarrow> string \<Rightarrow> string" where
  "path_resolve base p = abs_path (resolve_segs base p)"

text \<open>
  \<^verbatim>\<open>path.dirname\<close>: from the end of the path, the positions after the first, skip
  the slashes, skip the last component; the path up to the slash before it is the
  directory.
\<close>

definition path_dirname :: "string \<Rightarrow> string" where
  "path_dirname p =
     (if p = [] then ''.''
      else let hasRoot = (hd p = CHR ''/'');
               r1 = dropWhile (\<lambda>c. c = CHR ''/'') (rev (tl p));
               r2 = dropWhile (\<lambda>c. c \<noteq> CHR ''/'') r1;
               end = length r2
           in if r2 = [] then (if hasRoot then ''/'' else ''.'')
              else if hasRoot \<and> end = 1 then ''//''
              else take end p)"

fun strip_common :: "'a list \<Rightarrow> 'a list \<Rightarrow> 'a list \<times> 'a list" where
  "strip_common (x # xs) (y # ys) = (if x = y then strip_common xs ys else (x # xs, y # ys))"
| "strip_common xs ys = (xs, ys)"

text \<open>
  \<^verbatim>\<open>path.relative(from, to)\<close>: both are resolved against the working directory
  \<open>base\<close>, their common leading components are dropped, and the result climbs out of
  what is left of \<open>from\<close> and descends into what is left of \<open>to\<close>.
\<close>

definition path_relative :: "string \<Rightarrow> string \<Rightarrow> string \<Rightarrow> string" where
  "path_relative base from to =
     (case strip_common (resolve_segs base from) (resolve_segs base to) of
        (f, t) \<Rightarrow> join_with ''/'' (replicate (length f) ''..'' @ t))"

subsection \<open>File-system calls\<close>

text \<open>Reading follows symbolic links, at most 40 of them, as the kernel does.\<close>

fun follow :: "nat \<Rightarrow> (string \<rightharpoonup> node) \<Rightarrow> string \<Rightarrow> errno + string" where
  "follow 0 fs p =
     (case fs p of None \<Rightarrow> Inl ENOENT | Some (RegFile c) \<Rightarrow> Inr c | Some (SymLink t) \<Rightarrow> Inl ELOOP)"
| "follow (Suc n) fs p =
     (case fs p of None \<Rightarrow> Inl ENOENT | Some (RegFile c) \<Rightarrow> Inr c
      | Some (SymLink t) \<Rightarrow> follow n fs (path_resolve (path_dirname p) t))"

definition readFileAsync :: "os_env \<Rightarrow> world \<Rightarrow> string \<Rightarrow> errno + string" where
  "readFileAsync env w p =
     (case read_fault env p of
        Some e \<Rightarrow> Inl e
      | None \<Rightarrow> follow 40 (files w) (path_resolve (cwd w) p))"

definition unlinkAsync :: "os_env \<Rightarrow> world \<Rightarrow> string \<Rightarrow> errno + world" where
  "unlinkAsync env w p =
     (case unlink_fault env p of
        Some e \<Rightarrow> Inl e
      | None \<Rightarrow>
          (case files w (path_resolve (cwd w) p) of
             None \<Rightarrow> Inl ENOENT
           | Some n \<Rightarrow> Inr (w\<lparr>files := (files w)(path_resolve (cwd w) p := None)\<rparr>)))"

definition symlinkAsync :: "os_env \<Rightarrow> world \<Rightarrow> string \<Rightarrow> string \<Rightarrow> errno + world" where
  "symlinkAsync env w target p =
     (case symlink_fault env p of
        Some e \<Rightarrow> Inl e
      | None \<Rightarrow>
          (case files w (path_resolve (cwd w) p) of
             Some n \<Rightarrow> Inl EEXIST
           | None \<Rightarrow> Inr (w\<lparr>files := (files w)(path_resolve (cwd w) p \<mapsto> SymLink target)\<rparr>)))"

definition chdir :: "os_env \<Rightarrow> world \<Rightarrow> string \<Rightarrow> errno + world" where
  "chdir env w d =
     (case chdir_fault env d of
        Some e \<Rightarrow> Inl e
      | None \<Rightarrow> Inr (w\<lparr>cwd := path_resolve (cwd w) d\<rparr>))"

subsection \<open>Concurrency: \<^verbatim>\<open>Promise.all\<close> over asynchronous tasks\<close>

text \<open>
  A task is the list of the calls it awaits, in program order. Between two awaits of one
  task the calls of the other tasks may complete, in any order. A schedule says, for
  every task, how it is merged with the tasks after it (\<open>True\<close>: this task's next call
  completes first); where the schedule says nothing the tasks run one after the other.
\<close>

fun merge2 :: "bool list \<Rightarrow> 'a list \<Rightarrow> 'a list \<Rightarrow> 'a list" where
  "merge2 bs [] ys = ys"
| "merge2 bs (x # xs) [] = x # xs"
| "merge2 [] (x # xs) (y # ys) = (x # xs) @ (y # ys)"
| "merge2 (b # bs) (x # xs) (y # ys) =
     (if b then x # merge2 bs xs (y # ys) else y # merge2 bs (x # xs) ys)"

fun interleave :: "bool list list \<Rightarrow> 'a list list \<Rightarrow> 'a list" where
  "interleave ss [] = []"
| "interleave [] (t # ts) = t @ interleave [] ts"
| "interleave (s # ss) (t # ts) = merge2 s t (interleave ss ts)"

section \<open>The program\<close>

subsection \<open>\<^verbatim>\<open>DiscoveredFile\<close>\<close>

record DiscoveredFile =
  path :: string
  calculatedSha1 :: "string option"

text \<open>
  \<^verbatim>\<open>sha1()\<close>: the digest is computed when the cache is unset or holds the empty
  string (both are falsy), and stored in the file object.
\<close>

definition sha1 :: "os_env \<Rightarrow> world \<Rightarrow> DiscoveredFile \<Rightarrow> errno + (string \<times> DiscoveredFile)" where
  "sha1 env w f =
     (if (case calculatedSha1 f of None \<Rightarrow> True | Some s \<Rightarrow> s = [])
      then (case readFileAsync env w (path f) of
              Inl e \<Rightarrow> Inl e
            | Inr buf \<Rightarrow> Inr (sha1_hex env buf, f\<lparr>calculatedSha1 := Some (sha1_hex env buf)\<rparr>))
      else (case calculatedSha1 f of None \<Rightarrow> Inr ([], f) | Some s \<Rightarrow> Inr (s, f)))"

definition DiscoveredFile_new :: "string \<Rightarrow> DiscoveredFile" where
  "DiscoveredFile_new p = \<lparr>path = p, calculatedSha1 = None\<rparr>"

subsection \<open>\<^verbatim>\<open>Scanner\<close>\<close>

record Scanner =
  rootDir :: string
  patterns :: "string list"

definition Scanner_new :: "string \<Rightarrow> string list \<Rightarrow> Scanner" where
  "Scanner_new root pats =
     \<lparr>rootDir = root, patterns = (if length pats = 0 then pats @ [''*''] else pats)\<rparr>"

definition scan_filter :: "Scanner \<Rightarrow> string" where
  "scan_filter sc = ''**/+('' @ join_with ''|'' (patterns sc) @ '')''"

definition scanFiles :: "os_env \<Rightarrow> Scanner \<Rightarrow> errno + DiscoveredFile list" where
  "scanFiles env sc =
     (case glob env (scan_filter sc) of
        Inl err \<Rightarrow> Inl err
      | Inr matches \<Rightarrow> Inr (map (\<lambda>p. DiscoveredFile_new p) matches))"

subsection \<open>\<^verbatim>\<open>Main\<close>\<close>

text \<open>
  \<^verbatim>\<open>duplicatesMap\<close> is a JavaScript \<^verbatim>\<open>Map\<close>: its keys are unique and it iterates
  in the order in which the keys were first set.
\<close>

type_synonym dmap = "(string \<times> DiscoveredFile list) list"

definition detectDuplicate :: "os_env \<Rightarrow> world \<Rightarrow> dmap \<Rightarrow> DiscoveredFile \<Rightarrow> errno + dmap" where
  "detectDuplicate env w dm file =
     (case sha1 env w file of
        Inl e \<Rightarrow> Inl e
      | Inr (sha, file') \<Rightarrow>
          (case (case map_of dm sha of
                   None \<Rightarrow> ([], AList.update sha [] dm)
                 | Some l \<Rightarrow> (l, dm)) of
             (list, dm1) \<Rightarrow> Inr (AList.update sha (list @ [file']) dm1)))"

fun populate_loop ::
  "os_env \<Rightarrow> world \<Rightarrow> DiscoveredFile list \<Rightarrow> dmap \<Rightarrow> errno option \<times> dmap" where
  "populate_loop env w [] dm = (None, dm)"
| "populate_loop env w (f # fs) dm =
     (case detectDuplicate env w dm f of
        Inl e \<Rightarrow> (Some e, dm)
      | Inr dm' \<Rightarrow> populate_loop env w fs dm')"

text \<open>
  \<^verbatim>\<open>populateDuplicates\<close> starts one task per file; each task awaits the read of its
  file and then, without another await, enters the file in the map. So the files enter
  the map in the order in which their reads complete.
\<close>

definition completion_order :: "bool list list \<Rightarrow> 'a list \<Rightarrow> 'a list" where
  "completion_order sched fls = interleave sched (map (\<lambda>f. [f]) fls)"

definition populateDuplicates ::
  "os_env \<Rightarrow> world \<Rightarrow> bool list list \<Rightarrow> DiscoveredFile list \<Rightarrow> dmap \<Rightarrow> errno option \<times> dmap" where
  "populateDuplicates env w sched fls dm = populate_loop env w (completion_order sched fls) dm"

definition removeUnique :: "dmap \<Rightarrow> dmap" where
  "removeUnique dm =
     foldl (\<lambda>m sha. case map_of m sha of
                      None \<Rightarrow> m
                    | Some l \<Rightarrow> if length l = 1 then AList.delete sha m else m)
           dm (map fst dm)"

definition printDuplicates :: "os_env \<Rightarrow> string \<Rightarrow> dmap \<Rightarrow> string list" where
  "printDuplicates env base dm =
     concat (map (\<lambda>(sha, duplicates).
       case duplicates of
         [] \<Rightarrow> []
       | src # dupes \<Rightarrow>
           map (\<lambda>dupe. console_log env
                  [path dupe, '' ->'', path_relative base (path_dirname (path dupe)) (path src)])
               dupes) dm)"

datatype fsop = Unlink string | Symlink string string

fun op_path :: "fsop \<Rightarrow> string" where
  "op_path (Unlink p) = p"
| "op_path (Symlink t p) = p"

fun exec_op :: "os_env \<Rightarrow> world \<Rightarrow> fsop \<Rightarrow> errno + world" where
  "exec_op env w (Unlink p) = unlinkAsync env w p"
| "exec_op env w (Symlink t p) = symlinkAsync env w t p"

text \<open>
  A list of calls is carried out in its order. The first call that fails ends it: the
  error goes up through \<^verbatim>\<open>Promise.all\<close> and \<^verbatim>\<open>run\<close> to the handler that ends the
  process, and the world is the one the calls before it have made. Calls of other tasks
  that are still pending at that moment are not followed.
\<close>

fun exec_ops :: "os_env \<Rightarrow> fsop list \<Rightarrow> world \<Rightarrow> errno option \<times> world" where
  "exec_ops env [] w = (None, w)"
| "exec_ops env (c # cs) w =
     (case exec_op env w c of
        Inl e \<Rightarrow> (Some e, w)
      | Inr w' \<Rightarrow> exec_ops env cs w')"

text \<open>
  \<^verbatim>\<open>createSymlinksForDuplicate\<close>: the calls the task awaits, in program order. For
  every member of the group but the first, the member is removed and then a link to the
  first member is made in its place; a call that fails ends the task.
\<close>

definition createSymlinksForDuplicate :: "string \<Rightarrow> DiscoveredFile list \<Rightarrow> fsop list" where
  "createSymlinksForDuplicate base duplicates =
     (case duplicates of
        [] \<Rightarrow> []
      | src # dupes \<Rightarrow>
          concat (map (\<lambda>dupe.
            [Unlink (path dupe),
             Symlink (path_relative base (path_dirname (path dupe)) (path src)) (path dupe)])
            dupes))"

text \<open>
  \<^verbatim>\<open>createSymlinks\<close> starts one such task per group under \<^verbatim>\<open>Promise.all\<close>; the
  calls of the tasks complete interleaved.
\<close>

definition createSymlinks :: "os_env \<Rightarrow> bool list list \<Rightarrow> dmap \<Rightarrow> world \<Rightarrow> errno option \<times> world" where
  "createSymlinks env sched dm w =
     exec_ops env
       (interleave sched (map (\<lambda>(sha, d). createSymlinksForDuplicate (cwd w) d) dm)) w"

record Options =
  dryRun :: bool
  pattern :: "string list"

record Args =
  dir :: string

text \<open>
  What a run leaves behind: the texts of its \<^verbatim>\<open>console.log\<close> calls in their order
  (each is written to standard output and a line feed after it), the world, the digest
  index of the \<^verbatim>\<open>Main\<close> object, and the error that ended the run, if one did.
\<close>

record outcome =
  stdout :: "string list"
  final :: world
  duplicatesMap :: dmap
  failure :: "errno option"

definition nothing_to_dedupe :: string where
  "nothing_to_dedupe =
     ''Nothing to dedupe '' @ [CHR 0xC2, CHR 0xAF, CHR 0x5C] @ ''_('' @
     [CHR 0xE3, CHR 0x83, CHR 0x84] @ '')_/'' @ [CHR 0xC2, CHR 0xAF]"

definition run ::
  "os_env \<Rightarrow> bool list list \<Rightarrow> bool list list \<Rightarrow> Options \<Rightarrow> Args \<Rightarrow> world \<Rightarrow> outcome" where
  "run env sched_hash sched_link options args w0 =
     (case chdir env w0 (dir args) of
        Inl e \<Rightarrow> \<lparr>stdout = [], final = w0, duplicatesMap = [], failure = Some e\<rparr>
      | Inr w \<Rightarrow>
     (let out1 = [console_log env [''Scanning...'']];
          scanner = Scanner_new (dir args) (pattern options)
      in (case scanFiles env scanner of
        Inl e \<Rightarrow> \<lparr>stdout = out1, final = w, duplicatesMap = [], failure = Some e\<rparr>
      | Inr fls \<Rightarrow>
     (let totalFiles = length fls;
          out2 = out1 @ [console_log env [''Matched '' @ show_nat totalFiles @ '' files''],
                         console_log env [''Looking for duplicates...'']]
      in (case populateDuplicates env w sched_hash fls [] of
        (Some e, dm) \<Rightarrow> \<lparr>stdout = out2, final = w, duplicatesMap = dm, failure = Some e\<rparr>
      | (None, dm) \<Rightarrow>
     (let uniqueFiles = length dm;
          out3 = out2 @ [console_log env [''Found '' @ show_nat uniqueFiles @ '' unique files'']];
          dm' = removeUnique dm;
          duplicatedSourceFiles = length dm';
          out4 = out3 @ [console_log env
                   [''Found '' @ show_nat duplicatedSourceFiles @ '' files with '' @
                    show_int (int totalFiles - int uniqueFiles - int duplicatedSourceFiles) @
                    '' copies'']]
      in if dryRun options
         then \<lparr>stdout = out4 @ printDuplicates env (cwd w) dm', final = w,
               duplicatesMap = dm', failure = None\<rparr>
         else if duplicatedSourceFiles = 0
         then \<lparr>stdout = out4 @ [console_log env [nothing_to_dedupe]], final = w,
               duplicatesMap = dm', failure = None\<rparr>
         else (case createSymlinks env sched_link dm' w of
                 (Some e, w') \<Rightarrow>
                   \<lparr>stdout = out4 @ [console_log env [''Creating symlinks...'']], final = w',
                    duplicatesMap = dm', failure = Some e\<rparr>
               | (None, w') \<Rightarrow>
                   \<lparr>stdout = out4 @ [console_log env [''Creating symlinks...''],
                                     console_log env [''Deduplication finished'']],
                    final = w', duplicatesMap = dm', failure = None\<rparr>)))))))"

section \<open>Notions the properties are stated with\<close>

text \<open>The digest of the file at a path, when it can be read.\<close>

definition digest_of :: "os_env \<Rightarrow> world \<Rightarrow> string \<Rightarrow> string option" where
  "digest_of env w p =
     (case readFileAsync env w p of Inl e \<Rightarrow> None | Inr buf \<Rightarrow> Some (sha1_hex env buf))"

text \<open>A file object after \<^verbatim>\<open>sha1()\<close> has stored the digest \<open>k\<close> in it.\<close>

definition hashed :: "string \<Rightarrow> string \<Rightarrow> DiscoveredFile" where
  "hashed k p = \<lparr>path = p, calculatedSha1 = Some k\<rparr>"

text \<open>The list under a key of the index, empty when the key is not set.\<close>

definition grp :: "dmap \<Rightarrow> string \<Rightarrow> DiscoveredFile list" where
  "grp dm k = (case map_of dm k of None \<Rightarrow> [] | Some l \<Rightarrow> l)"

definition index_ok :: "dmap \<Rightarrow> bool" where
  "index_ok dm = (distinct (map fst dm) \<and> (\<forall>(k, g) \<in> set dm. g \<noteq> []))"

text \<open>The entry of the file-system map a call works on.\<close>

definition op_key :: "string \<Rightarrow> fsop \<Rightarrow> string" where
  "op_key base c = path_resolve base (op_path c)"

subsection \<open>A directory with two identical files\<close>

text \<open>
  \<^verbatim>\<open>/d/a.txt\<close> and \<^verbatim>\<open>/d/b.txt\<close> both hold \<^verbatim>\<open>hello\<close>; the scanner finds them in
  this order; no call fails. The digest function of the example is the identity.
\<close>

definition env_ab :: os_env where
  "env_ab = \<lparr>sha1_hex = (\<lambda>s. s), glob = (\<lambda>f. Inr [''/d/a.txt'', ''/d/b.txt'']),
     util_format = (\<lambda>f as. f), chdir_fault = (\<lambda>_. None), read_fault = (\<lambda>_. None),
     unlink_fault = (\<lambda>_. None), symlink_fault = (\<lambda>_. None)\<rparr>"

definition world_ab :: world where
  "world_ab = \<lparr>files = [''/d/a.txt'' \<mapsto> RegFile ''hello'', ''/d/b.txt'' \<mapsto> RegFile ''hello''],
     cwd = ''/d''\<rparr>"

definition dm_ab :: dmap where
  "dm_ab = [(''hello'', [hashed ''hello'' ''/d/a.txt'', hashed ''hello'' ''/d/b.txt''])]"

text \<open>The five lines every run prints once the grouping pass is through.\<close>

definition summary :: "os_env \<Rightarrow> nat \<Rightarrow> nat \<Rightarrow> nat \<Rightarrow> string list" where
  "summary env tot uniq dup =
     [console_log env [''Scanning...''],
      console_log env [''Matched '' @ show_nat tot @ '' files''],
      console_log env [''Looking for duplicates...''],
      console_log env [''Found '' @ show_nat uniq @ '' unique files''],
      console_log env [''Found '' @ show_nat dup @ '' files with '' @
                       show_int (int tot - int uniq - int dup) @ '' copies'']]"

subsection \<open>A directory with two identical files and a third one\<close>

definition env_abc :: os_env where
  "env_abc = env_ab\<lparr>glob := (\<lambda>f. Inr [''/d/a.txt'', ''/d/b.txt'', ''/d/c.txt''])\<rparr>"

definition world_abc :: world where
  "world_abc = world_ab\<lparr>files := (files world_ab)(''/d/c.txt'' \<mapsto> RegFile ''other'')\<rparr>"

definition dm_abc :: dmap where
  "dm_abc = dm_ab @ [(''other'', [hashed ''other'' ''/d/c.txt''])]"

text \<open>The same directory when the scanner returns \<^verbatim>\<open>/d/c.txt\<close> only.\<close>

definition env_c :: os_env where
  "env_c = env_ab\<lparr>glob := (\<lambda>f. Inr [''/d/c.txt''])\<rparr>"

subsection \<open>Two pairs of identical files and a link that cannot be made\<close>

text \<open>
  \<^verbatim>\<open>/d/x1\<close> and \<^verbatim>\<open>/d/x2\<close> hold \<^verbatim>\<open>A\<close>, \<^verbatim>\<open>/d/y1\<close> and \<^verbatim>\<open>/d/y2\<close> hold \<^verbatim>\<open>B\<close>;
  the file system has no room for a link at \<^verbatim>\<open>/d/y2\<close>.
\<close>

definition env_xy :: os_env where
  "env_xy = env_ab\<lparr>glob := (\<lambda>f. Inr [''/d/x1'', ''/d/x2'', ''/d/y1'', ''/d/y2'']),
     symlink_fault := (\<lambda>p. if p = ''/d/y2'' then Some ENOSPC else None)\<rparr>"

definition world_xy :: world where
  "world_xy = \<lparr>files = [''/d/x1'' \<mapsto> RegFile ''A'', ''/d/x2'' \<mapsto> RegFile ''A'',
                         ''/d/y1'' \<mapsto> RegFile ''B'', ''/d/y2'' \<mapsto> RegFile ''B''],
     cwd = ''/d''\<rparr>"

text \<open>The two calls that replace one copy.\<close>

definition replace_calls :: "string \<Rightarrow> DiscoveredFile \<Rightarrow> DiscoveredFile \<Rightarrow> fsop list" where
  "replace_calls base src dupe =
     [Unlink (path dupe),
      Symlink (path_relative base (path_dirname (path dupe)) (path src)) (path dupe)]"

subsection \<open>A group of four identical files and a link that cannot be made\<close>

definition env_g :: os_env where
  "env_g = env_ab\<lparr>glob := (\<lambda>f. Inr [''/d/s'', ''/d/c1'', ''/d/c2'', ''/d/c3'']),
     symlink_fault := (\<lambda>p. if p = ''/d/c2'' then Some ENOSPC else None)\<rparr>"

definition world_g :: world where
  "world_g = \<lparr>files = [''/d/s'' \<mapsto> RegFile ''A'', ''/d/c1'' \<mapsto> RegFile ''A'',
                        ''/d/c2'' \<mapsto> RegFile ''A'', ''/d/c3'' \<mapsto> RegFile ''A''],
     cwd = ''/d''\<rparr>"

definition group_g :: "DiscoveredFile list" where
  "group_g = [hashed ''A'' ''/d/s'', hashed ''A'' ''/d/c1'', hashed ''A'' ''/d/c2'',
              hashed ''A'' ''/d/c3'']"

subsection \<open>Paths as the scanner returns them\<close>

text \<open>
  The scanner asks \<^verbatim>\<open>glob\<close> for real paths: absolute, and made of names that are
  neither empty nor \<^verbatim>\<open>.\<close> nor \<^verbatim>\<open>..\<close>.
\<close>

definition plain_name :: "string \<Rightarrow> bool" where
  "plain_name s = (s \<noteq> [] \<and> CHR ''/'' \<notin> set s \<and> s \<noteq> ''.'' \<and> s \<noteq> ''..'')"

definition abs_norm :: "string \<Rightarrow> bool" where
  "abs_norm p =
     (path_components p \<noteq> [] \<and> list_all plain_name (path_components p) \<and>
      p = abs_path (path_components p))"

text \<open>The absolute path made of the given names, without the special case of the root.\<close>

definition slashes :: "string list \<Rightarrow> string" where
  "slashes cs = concat (map (\<lambda>s. CHR ''/'' # s) cs)"


subsection \<open>Output lines\<close>

text \<open>
  \<^verbatim>\<open>console.log\<close> writes its text and a line feed. The lines of the output are what
  stands between the line feeds of all that was written; a text that holds a line feed
  itself is more than one line.
\<close>

definition line_feed :: char where
  "line_feed = CHR 0x0A"





subsection \<open>Paths with a percent sign or a line feed\<close>








section \<open>Interleavings\<close>

lemma append_in_shuffles: "xs @ ys \<in> shuffles xs ys"
  by (induction xs) (simp_all add: Cons_in_shuffles_leftI)

lemma merge2_shuffles: "merge2 bs xs ys \<in> shuffles xs ys"
proof (induction bs xs ys rule: merge2.induct)
  case (3 x xs y ys)
  show ?case using append_in_shuffles[of "x # xs" "y # ys"] by simp
qed (auto simp: Cons_in_shuffles_iff)

lemma mset_interleave: "mset (interleave ss ts) = mset (concat ts)"
proof (induction ss ts rule: interleave.induct)
  case (3 s ss t ts)
  then show ?case using mset_shuffles[OF merge2_shuffles, of s t "interleave ss ts"] by simp
qed simp_all

lemma mset_completion_order: "mset (completion_order sched fls) = mset fls"
  by (simp add: completion_order_def mset_interleave concat_map_singleton)

lemma completion_order_Nil: "completion_order [] fls = fls"
  by (induction fls) (simp_all add: completion_order_def)

text \<open>Every interleaving of two tasks is the merge under some schedule.\<close>

lemma merge2_complete:
  "zs \<in> shuffles xs ys \<Longrightarrow> \<exists>bs. merge2 bs xs ys = zs"
proof (induction zs arbitrary: xs ys)
  case Nil
  then have "merge2 [] xs ys = []" by simp
  then show ?case ..
next
  case (Cons z zs)
  from Cons.prems consider
    (left) "xs \<noteq> []" "hd xs = z" "zs \<in> shuffles (tl xs) ys"
    | (right) "ys \<noteq> []" "hd ys = z" "zs \<in> shuffles xs (tl ys)"
    unfolding Cons_in_shuffles_iff by blast
  then show ?case
  proof cases
    case left
    from Cons.IH[OF left(3)] obtain bs where bs: "merge2 bs (tl xs) ys = zs" ..
    obtain xs' where xs: "xs = z # xs'" using left(1,2) by (cases xs) auto
    show ?thesis
    proof (cases ys)
      case Nil
      with left(3) xs have "merge2 [] xs ys = z # zs" by simp
      then show ?thesis ..
    next
      case (Cons y ys')
      with bs xs have "merge2 (True # bs) xs ys = z # zs" by simp
      then show ?thesis ..
    qed
  next
    case right
    from Cons.IH[OF right(3)] obtain bs where bs: "merge2 bs xs (tl ys) = zs" ..
    obtain ys' where ys: "ys = z # ys'" using right(1,2) by (cases ys) auto
    show ?thesis
    proof (cases xs)
      case Nil
      with right(3) ys have "merge2 [] xs ys = z # zs" by simp
      then show ?thesis ..
    next
      case (Cons x xs')
      with bs ys have "merge2 (False # bs) xs ys = z # zs" by simp
      then show ?thesis ..
    qed
  qed
qed

text \<open>Every order of the files is the completion order under some schedule.\<close>

lemma completion_order_complete:
  "mset zs = mset fls \<Longrightarrow> \<exists>sched. completion_order sched fls = zs"
proof (induction fls arbitrary: zs)
  case Nil
  then have "completion_order [] [] = zs" by (simp add: completion_order_def)
  then show ?case ..
next
  case (Cons f fls)
  then have "f \<in> set zs" by (metis list.set_intros(1) set_mset_mset)
  then obtain as bs where zs: "zs = as @ f # bs" by (meson split_list)
  with Cons.prems have "mset (as @ bs) = mset fls" by simp
  from Cons.IH[OF this] obtain ss where ss: "completion_order ss fls = as @ bs" ..
  have "as @ f # bs \<in> shuffles [f] (as @ bs)"
    by (induction as) (auto simp: Cons_in_shuffles_iff)
  from merge2_complete[OF this] obtain s where "merge2 s [f] (as @ bs) = as @ f # bs" ..
  then have "completion_order (s # ss) (f # fls) = zs"
    using ss zs by (simp add: completion_order_def)
  then show ?case ..
qed

section \<open>The grouping pass\<close>

lemma detectDuplicate_DiscoveredFile_new:
  "detectDuplicate env w dm (DiscoveredFile_new p) =
     (case readFileAsync env w p of
        Inl e \<Rightarrow> Inl e
      | Inr b \<Rightarrow> Inr (AList.update (sha1_hex env b) (grp dm (sha1_hex env b) @ [hashed (sha1_hex env b) p]) dm))"
  by (auto simp: detectDuplicate_def sha1_def DiscoveredFile_new_def hashed_def grp_def
           split: sum.splits option.splits)

lemma index_ok_update: "index_ok dm \<Longrightarrow> g \<noteq> [] \<Longrightarrow> index_ok (AList.update k g dm)"
  unfolding index_ok_def
  by (induction dm) (auto simp: distinct_update dom_update)

lemma grp_update: "grp (AList.update k g dm) k' = (if k' = k then g else grp dm k')"
  by (simp add: grp_def update_conv')

lemma populate_loop_DiscoveredFile_new:
  "populate_loop env w (map DiscoveredFile_new ps) dm = (None, dm') \<Longrightarrow> index_ok dm \<Longrightarrow>
   index_ok dm' \<and> (\<forall>p \<in> set ps. digest_of env w p \<noteq> None) \<and>
   (\<forall>k. grp dm' k = grp dm k @ map (hashed k) (filter (\<lambda>p. digest_of env w p = Some k) ps))"
proof (induction ps arbitrary: dm)
  case Nil
  then show ?case by simp
next
  case (Cons p ps)
  from Cons.prems(1) obtain b where rd: "readFileAsync env w p = Inr b"
    by (cases "readFileAsync env w p") (simp_all add: detectDuplicate_DiscoveredFile_new)
  define k0 where "k0 = sha1_hex env b"
  define dm1 where "dm1 = AList.update k0 (grp dm k0 @ [hashed k0 p]) dm"
  have dg: "digest_of env w p = Some k0" by (simp add: digest_of_def rd k0_def)
  have step: "detectDuplicate env w dm (DiscoveredFile_new p) = Inr dm1"
    by (simp add: detectDuplicate_DiscoveredFile_new rd dm1_def k0_def)
  with Cons.prems(1) have rest: "populate_loop env w (map DiscoveredFile_new ps) dm1 = (None, dm')" by simp
  have ok1: "index_ok dm1" unfolding dm1_def by (rule index_ok_update[OF Cons.prems(2)]) simp
  from Cons.IH[OF rest ok1] have ih:
    "index_ok dm'" "\<forall>p \<in> set ps. digest_of env w p \<noteq> None"
    "\<forall>k. grp dm' k = grp dm1 k @ map (hashed k) (filter (\<lambda>p. digest_of env w p = Some k) ps)"
    by auto
  have "grp dm' k = grp dm k @ map (hashed k) (filter (\<lambda>p. digest_of env w p = Some k) (p # ps))" for k
    using ih(3) by (auto simp: dm1_def grp_update dg)
  with ih(1,2) dg show ?case by simp
qed
lemma index_ok_Nil: "index_ok []"
  by (simp add: index_ok_def)

lemma index_ok_entry: "index_ok dm \<Longrightarrow> ((k, g) \<in> set dm \<longleftrightarrow> g \<noteq> [] \<and> grp dm k = g)"
  by (auto simp: index_ok_def grp_def split: option.splits dest: map_of_SomeD eq_key_imp_eq_value)

lemma merge2_map: "merge2 bs (map f xs) (map f ys) = map f (merge2 bs xs ys)"
  by (induction bs xs ys rule: merge2.induct) simp_all

lemma interleave_map: "interleave ss (map (map f) ts) = map f (interleave ss ts)"
  by (induction ss ts rule: interleave.induct) (simp_all add: merge2_map)

lemma completion_order_map: "completion_order sched (map f xs) = map f (completion_order sched xs)"
  using interleave_map[of sched f "map (\<lambda>x. [x]) xs"]
  by (simp add: completion_order_def comp_def)

lemma populateDuplicates_groups:
  assumes "populateDuplicates env w sched (map DiscoveredFile_new matches) [] = (None, dm)"
  shows "index_ok dm"
    and "\<forall>p \<in> set matches. digest_of env w p \<noteq> None"
    and "grp dm k = map (hashed k) (filter (\<lambda>p. digest_of env w p = Some k) (completion_order sched matches))"
proof -
  have "populate_loop env w (map DiscoveredFile_new (completion_order sched matches)) [] = (None, dm)"
    using assms by (simp add: populateDuplicates_def completion_order_map)
  from populate_loop_DiscoveredFile_new[OF this index_ok_Nil]
  have *: "index_ok dm" "\<forall>p \<in> set (completion_order sched matches). digest_of env w p \<noteq> None"
    "\<forall>k. grp dm k = grp [] k @ map (hashed k) (filter (\<lambda>p. digest_of env w p = Some k) (completion_order sched matches))"
    by auto
  have "set (completion_order sched matches) = set matches"
    using mset_completion_order[of sched matches] by (metis set_mset_mset)
  with * show "index_ok dm" "\<forall>p \<in> set matches. digest_of env w p \<noteq> None" by auto
  show "grp dm k = map (hashed k) (filter (\<lambda>p. digest_of env w p = Some k) (completion_order sched matches))"
    using *(3) by (simp add: grp_def)
qed

lemma group_members:
  assumes "populateDuplicates env w sched (map DiscoveredFile_new matches) [] = (None, dm)"
  shows "(k, g) \<in> set dm \<and> p \<in> path ` set g \<longleftrightarrow>
         g = grp dm k \<and> p \<in> set matches \<and> digest_of env w p = Some k"
proof -
  note G = populateDuplicates_groups[OF assms]
  have s: "set (completion_order sched matches) = set matches"
    using mset_completion_order[of sched matches] by (metis set_mset_mset)
  have m: "path ` set (grp dm k) = {p \<in> set matches. digest_of env w p = Some k}"
    by (auto simp: G(3) s hashed_def image_iff)
  show ?thesis
  proof
    assume "(k, g) \<in> set dm \<and> p \<in> path ` set g"
    then show "g = grp dm k \<and> p \<in> set matches \<and> digest_of env w p = Some k"
      using index_ok_entry[OF G(1), of k g] m by auto
  next
    assume a: "g = grp dm k \<and> p \<in> set matches \<and> digest_of env w p = Some k"
    then have "p \<in> path ` set g" using m by auto
    moreover from this have "g \<noteq> []" by auto
    ultimately show "(k, g) \<in> set dm \<and> p \<in> path ` set g"
      using index_ok_entry[OF G(1), of k g] a by auto
  qed
qed

lemma group_paths:
  assumes "populateDuplicates env w sched (map DiscoveredFile_new matches) [] = (None, dm)"
    and "(k, g) \<in> set dm"
  shows "map path g = filter (\<lambda>p. digest_of env w p = Some k) (completion_order sched matches)"
proof -
  note G = populateDuplicates_groups[OF assms(1)]
  have "grp dm k = g" using assms(2) index_ok_entry[OF G(1)] by auto
  then have "g = map (hashed k) (filter (\<lambda>p. digest_of env w p = Some k) (completion_order sched matches))"
    using G(3)[of k] by simp
  then have "map path g = map (path \<circ> hashed k)
      (filter (\<lambda>p. digest_of env w p = Some k) (completion_order sched matches))"
    by simp
  also have "path \<circ> hashed k = (\<lambda>p. p)" by (simp add: fun_eq_iff hashed_def)
  finally show ?thesis by simp
qed

section \<open>The phases of a run\<close>

lemma run_after_grouping:
  assumes "chdir env w0 (dir args) = Inr w"
    and "glob env (scan_filter (Scanner_new (dir args) (pattern options))) = Inr matches"
    and "populateDuplicates env w s1 (map DiscoveredFile_new matches) [] = (None, dm)"
  shows "duplicatesMap (run env s1 s2 options args w0) = removeUnique dm"
    and "stdout (run env s1 s2 options args w0) =
           summary env (length matches) (length dm) (length (removeUnique dm)) @
           (if dryRun options then printDuplicates env (cwd w) (removeUnique dm)
            else if removeUnique dm = [] then [console_log env [nothing_to_dedupe]]
            else console_log env [''Creating symlinks...''] #
                 (case fst (createSymlinks env s2 (removeUnique dm) w) of
                    None \<Rightarrow> [console_log env [''Deduplication finished'']]
                  | Some e \<Rightarrow> []))"
    and "final (run env s1 s2 options args w0) =
           (if dryRun options \<or> removeUnique dm = [] then w
            else snd (createSymlinks env s2 (removeUnique dm) w))"
    and "failure (run env s1 s2 options args w0) =
           (if dryRun options \<or> removeUnique dm = [] then None
            else fst (createSymlinks env s2 (removeUnique dm) w))"
  using assms
  by (auto simp: run_def scanFiles_def summary_def Let_def split: prod.splits option.splits)

section \<open>Dropping the groups of one file\<close>

lemma removeUnique_fold:
  "distinct (map fst m) \<Longrightarrow>
   foldl (\<lambda>m sha. case map_of m sha of
                      None \<Rightarrow> m
                    | Some l \<Rightarrow> if length l = 1 then AList.delete sha m else m) m ks
   = filter (\<lambda>(k, g). \<not> (k \<in> set ks \<and> length g = 1)) m"
proof (induction ks arbitrary: m)
  case Nil
  then show ?case by simp
next
  case (Cons k ks)
  let ?step = "\<lambda>m sha. case map_of m sha of
                      None \<Rightarrow> m
                    | Some l \<Rightarrow> if length l = 1 then AList.delete sha m else m"
  show ?case
  proof (cases "\<exists>l. map_of m k = Some l \<and> length l = 1")
    case True
    then obtain l where l: "map_of m k = Some l" "length l = 1" by blast
    have d: "distinct (map fst (AList.delete k m))" using Cons.prems by (rule distinct_delete)
    have "foldl ?step m (k # ks) = foldl ?step (AList.delete k m) ks" using l by simp
    also have "\<dots> = filter (\<lambda>(k, g). \<not> (k \<in> set ks \<and> length g = 1)) (AList.delete k m)"
      by (rule Cons.IH[OF d])
    also have "\<dots> = filter (\<lambda>(k', g). \<not> (k' \<in> set (k # ks) \<and> length g = 1)) m"
    proof -
      have pt: "g = l" if "(k, g) \<in> set m" for g
        using that l(1) Cons.prems by simp
      show ?thesis
        unfolding AList.delete_eq filter_filter
        using l(2) by (auto intro!: filter_cong dest: pt)
    qed
    finally show ?thesis .
  next
    case False
    then have "foldl ?step m (k # ks) = foldl ?step m ks" by (auto split: option.splits)
    also have "\<dots> = filter (\<lambda>(k, g). \<not> (k \<in> set ks \<and> length g = 1)) m"
      by (rule Cons.IH[OF Cons.prems])
    also have "\<dots> = filter (\<lambda>(k', g). \<not> (k' \<in> set (k # ks) \<and> length g = 1)) m"
    proof -
      have pt: "length g \<noteq> 1" if "(k, g) \<in> set m" for g
      proof -
        from that Cons.prems have "map_of m k = Some g" by simp
        with False show ?thesis by auto
      qed
      show ?thesis by (auto intro!: filter_cong dest: pt)
    qed
    finally show ?thesis .
  qed
qed

lemma removeUnique_filter:
  "distinct (map fst dm) \<Longrightarrow> removeUnique dm = filter (\<lambda>(k, g). length g \<noteq> 1) dm"
  unfolding removeUnique_def
  by (subst removeUnique_fold) (force intro!: filter_cong)+

section \<open>What the file-system calls change\<close>

lemma exec_op_cwd: "exec_op env w c = Inr w' \<Longrightarrow> cwd w' = cwd w"
  by (cases c) (auto simp: unlinkAsync_def symlinkAsync_def split: option.splits)

lemma exec_op_frame:
  "exec_op env w c = Inr w' \<Longrightarrow> \<kappa> \<noteq> op_key (cwd w) c \<Longrightarrow> files w' \<kappa> = files w \<kappa>"
  by (cases c) (auto simp: unlinkAsync_def symlinkAsync_def op_key_def split: option.splits)

lemma exec_ops_cwd: "exec_ops env cs w = (r, w') \<Longrightarrow> cwd w' = cwd w"
proof (induction cs arbitrary: w)
  case Nil
  then show ?case by simp
next
  case (Cons c cs)
  then show ?case by (cases "exec_op env w c") (auto dest: exec_op_cwd)
qed

lemma exec_ops_frame:
  "exec_ops env cs w = (r, w') \<Longrightarrow> \<kappa> \<notin> op_key (cwd w) ` set cs \<Longrightarrow> files w' \<kappa> = files w \<kappa>"
proof (induction cs arbitrary: w)
  case Nil
  then show ?case by simp
next
  case (Cons c cs)
  show ?case
  proof (cases "exec_op env w c")
    case (Inl e)
    with Cons.prems show ?thesis by simp
  next
    case (Inr w1)
    with Cons.prems have r: "exec_ops env cs w1 = (r, w')" by simp
    have c1: "cwd w1 = cwd w" using Inr by (rule exec_op_cwd)
    have "files w' \<kappa> = files w1 \<kappa>" using Cons.IH[OF r] Cons.prems(2) c1 by simp
    also have "\<dots> = files w \<kappa>" using exec_op_frame[OF Inr] Cons.prems(2) by simp
    finally show ?thesis .
  qed
qed

lemma exec_ops_append:
  "exec_ops env (as @ bs) w =
     (case exec_ops env as w of (Some e, w') \<Rightarrow> (Some e, w') | (None, w') \<Rightarrow> exec_ops env bs w')"
  by (induction as arbitrary: w) (auto split: sum.splits)

lemma exec_ops_last_symlink:
  "exec_ops env cs w = (None, w') \<Longrightarrow>
   filter (\<lambda>c. op_key (cwd w) c = \<kappa>) cs = pre @ [Symlink t p] \<Longrightarrow>
   files w' \<kappa> = Some (SymLink t)"
proof (induction cs arbitrary: w pre)
  case Nil
  then show ?case by simp
next
  case (Cons c cs)
  from Cons.prems(1) obtain w1 where w1: "exec_op env w c = Inr w1" "exec_ops env cs w1 = (None, w')"
    by (cases "exec_op env w c") auto
  have c1: "cwd w1 = cwd w" using w1(1) by (rule exec_op_cwd)
  show ?case
  proof (cases "filter (\<lambda>c. op_key (cwd w) c = \<kappa>) cs = []")
    case True
    with Cons.prems(2) have c: "c = Symlink t p" "op_key (cwd w) c = \<kappa>" "pre = []"
      by (auto split: if_splits simp: Cons_eq_append_conv)
    have "files w1 \<kappa> = Some (SymLink t)"
      using w1(1) c by (auto simp: symlinkAsync_def op_key_def split: option.splits)
    moreover have "\<kappa> \<notin> op_key (cwd w1) ` set cs"
      using True c1 by (auto simp: filter_empty_conv)
    ultimately show ?thesis using exec_ops_frame[OF w1(2)] by simp
  next
    case False
    with Cons.prems(2) obtain pre' where "filter (\<lambda>c. op_key (cwd w) c = \<kappa>) cs = pre' @ [Symlink t p]"
      by (cases pre) (auto split: if_splits)
    then show ?thesis using Cons.IH[OF w1(2), of pre'] c1 by simp
  qed
qed

lemma exec_ops_fails_in:
  "exec_ops env (concat (map f xs)) w = (Some e, w') \<Longrightarrow>
   \<exists>done d rest w1. xs = done @ d # rest \<and> exec_ops env (concat (map f done)) w = (None, w1)
      \<and> exec_ops env (f d) w1 = (Some e, w')"
proof (induction xs arbitrary: w)
  case Nil
  then show ?case by simp
next
  case (Cons x xs)
  show ?case
  proof (cases "exec_ops env (f x) w")
    case (Pair r w1)
    show ?thesis
    proof (cases r)
      case None
      with Pair Cons.prems have "exec_ops env (concat (map f xs)) w1 = (Some e, w')"
        by (simp add: exec_ops_append)
      from Cons.IH[OF this] obtain done' d rest w2 where
        "xs = done' @ d # rest" "exec_ops env (concat (map f done')) w1 = (None, w2)"
        "exec_ops env (f d) w2 = (Some e, w')" by blast
      then have "x # xs = (x # done') @ d # rest \<and>
          exec_ops env (concat (map f (x # done'))) w = (None, w2) \<and>
          exec_ops env (f d) w2 = (Some e, w')"
        using Pair None by (simp add: exec_ops_append)
      then show ?thesis by blast
    next
      case (Some e')
      with Pair Cons.prems have "e' = e" "w1 = w'" by (simp_all add: exec_ops_append)
      with Pair Some have "x # xs = [] @ x # xs \<and> exec_ops env (concat (map f [])) w = (None, w) \<and>
          exec_ops env (f x) w = (Some e, w')" by simp
      then show ?thesis by blast
    qed
  qed
qed

lemma exec_ops_fails_before:
  "exec_ops env cs w = (Some e, w') \<Longrightarrow>
   \<exists>pre c post. cs = pre @ c # post \<and> exec_ops env pre w = (None, w') \<and> exec_op env w' c = Inl e"
proof (induction cs arbitrary: w)
  case Nil
  then show ?case by simp
next
  case (Cons c cs)
  show ?case
  proof (cases "exec_op env w c")
    case (Inl e')
    with Cons.prems have "c # cs = [] @ c # cs \<and> exec_ops env [] w = (None, w') \<and> exec_op env w' c = Inl e"
      by simp
    then show ?thesis by blast
  next
    case (Inr w1)
    with Cons.prems have "exec_ops env cs w1 = (Some e, w')" by simp
    from Cons.IH[OF this] obtain pre c' post where
      "cs = pre @ c' # post" "exec_ops env pre w1 = (None, w')" "exec_op env w' c' = Inl e" by blast
    with Inr have "c # cs = (c # pre) @ c' # post \<and> exec_ops env (c # pre) w = (None, w') \<and>
        exec_op env w' c' = Inl e" by simp
    then show ?thesis by blast
  qed
qed

section \<open>Replacing the copies of one group\<close>

lemma createSymlinksForDuplicate_calls:
  "createSymlinksForDuplicate base (src # dupes) = concat (map (replace_calls base src) dupes)"
  by (simp add: createSymlinksForDuplicate_def replace_calls_def[abs_def])

lemma op_key_replace_calls:
  "op_key base ` set (replace_calls base src x) = {path_resolve base (path x)}"
  by (simp add: replace_calls_def op_key_def)

lemma op_key_concat_replace_calls:
  "op_key base ` set (concat (map (replace_calls base src) xs)) =
     (\<lambda>x. path_resolve base (path x)) ` set xs"
  by (induction xs) (auto simp: replace_calls_def op_key_def)

lemma filter_replace_calls_one:
  "filter (\<lambda>c. op_key base c = \<kappa>) (replace_calls base src x) =
     (if path_resolve base (path x) = \<kappa> then replace_calls base src x else [])"
  by (simp add: replace_calls_def op_key_def)

lemma filter_replace_calls:
  "distinct (map (\<lambda>f. path_resolve base (path f)) xs) \<Longrightarrow> x \<in> set xs \<Longrightarrow>
   filter (\<lambda>c. op_key base c = path_resolve base (path x))
     (concat (map (replace_calls base src) xs)) = replace_calls base src x"
proof (induction xs)
  case Nil
  then show ?case by simp
next
  case (Cons y ys)
  show ?case
  proof (cases "x = y")
    case True
    have "path_resolve base (path y) \<notin> op_key base ` set (concat (map (replace_calls base src) ys))"
      using Cons.prems(1) op_key_concat_replace_calls[of base src ys] by simp
    then have "\<forall>c \<in> set (concat (map (replace_calls base src) ys)).
                 op_key base c \<noteq> path_resolve base (path y)"
      by (metis imageI)
    then have "filter (\<lambda>c. op_key base c = path_resolve base (path y))
                 (concat (map (replace_calls base src) ys)) = []"
      unfolding filter_empty_conv by blast
    then show ?thesis using True by (simp add: filter_replace_calls_one)
  next
    case False
    with Cons.prems have x: "x \<in> set ys" "path_resolve base (path y) \<noteq> path_resolve base (path x)"
      by auto
    then show ?thesis using Cons by (simp add: filter_replace_calls_one)
  qed
qed

lemma replaced_copies:
  assumes "exec_ops env (concat (map (replace_calls (cwd w) src) xs)) w = (None, w')"
    and "distinct (map (\<lambda>f. path_resolve (cwd w) (path f)) xs)"
    and "x \<in> set xs"
  shows "files w' (path_resolve (cwd w) (path x)) =
           Some (SymLink (path_relative (cwd w) (path_dirname (path x)) (path src)))"
proof -
  have "filter (\<lambda>c. op_key (cwd w) c = path_resolve (cwd w) (path x))
          (concat (map (replace_calls (cwd w) src) xs))
        = [Unlink (path x)] @
          [Symlink (path_relative (cwd w) (path_dirname (path x)) (path src)) (path x)]"
    using filter_replace_calls[OF assms(2,3)] by (simp add: replace_calls_def)
  from exec_ops_last_symlink[OF assms(1) this] show ?thesis .
qed

section \<open>Paths\<close>

lemma split_path_not_Nil: "split_path p \<noteq> []"
  by (induction p) (auto split: list.splits)

lemma split_path_append:
  "split_path (a @ CHR ''/'' # b) = split_path a @ split_path b"
proof (induction a)
  case Nil
  then show ?case by simp
next
  case (Cons c a)
  then show ?case
    using split_path_not_Nil[of a] by (cases "split_path a") auto
qed

lemma split_path_no_slash: "CHR ''/'' \<notin> set s \<Longrightarrow> split_path s = [s]"
  by (induction s) auto

lemma path_components_append:
  "path_components (a @ CHR ''/'' # b) = path_components a @ path_components b"
  by (simp add: path_components_def split_path_append)

lemma path_components_slash: "path_components (CHR ''/'' # b) = path_components b"
  by (simp add: path_components_def)

lemma path_components_Nil: "path_components [] = []"
  by (simp add: path_components_def)

lemma path_components_name:
  "s \<noteq> [] \<Longrightarrow> CHR ''/'' \<notin> set s \<Longrightarrow> path_components s = [s]"
  by (simp add: path_components_def split_path_no_slash)

lemma slashes_simps:
  "slashes [] = []" "slashes (c # cs) = CHR ''/'' # c @ slashes cs"
  by (simp_all add: slashes_def)

lemma slashes_append: "slashes (as @ bs) = slashes as @ slashes bs"
  by (simp add: slashes_def)

lemma abs_path_slashes: "abs_path cs = (if cs = [] then ''/'' else slashes cs)"
  by (simp add: abs_path_def slashes_def)

lemma path_components_slashes:
  "\<forall>s \<in> set cs. s \<noteq> [] \<and> CHR ''/'' \<notin> set s \<Longrightarrow> path_components (slashes cs) = cs"
proof (induction cs)
  case Nil
  then show ?case by (simp add: slashes_simps path_components_Nil)
next
  case (Cons c cs)
  show ?case
  proof (cases cs)
    case Nil
    with Cons.prems show ?thesis
      by (simp add: slashes_simps path_components_slash path_components_name)
  next
    case (Cons c' cs')
    then have "slashes (c # cs) = CHR ''/'' # c @ CHR ''/'' # c' @ slashes cs'"
      by (simp add: slashes_simps)
    then have "path_components (slashes (c # cs)) = path_components c @ path_components (slashes cs)"
      using Cons by (simp add: path_components_slash path_components_append slashes_simps)
    then show ?thesis using Cons.prems Cons.IH by (simp add: path_components_name)
  qed
qed

lemma path_components_abs_path:
  "\<forall>s \<in> set cs. s \<noteq> [] \<and> CHR ''/'' \<notin> set s \<Longrightarrow> path_components (abs_path cs) = cs"
  by (auto simp: abs_path_slashes path_components_slashes path_components_slash path_components_Nil)

lemma path_components_join:
  "\<forall>s \<in> set xs. s \<noteq> [] \<and> CHR ''/'' \<notin> set s \<Longrightarrow> path_components (join_with ''/'' xs) = xs"
proof (induction "''/''" xs rule: join_with.induct)
  case 1
  then show ?case by (simp add: path_components_Nil)
next
  case (2 x)
  then show ?case by (simp add: path_components_name)
next
  case (3 x y ys)
  then show ?case by (simp add: path_components_append path_components_name)
qed

lemma join_not_absolute:
  assumes "\<forall>s \<in> set xs. s \<noteq> [] \<and> CHR ''/'' \<notin> set s"
  shows "\<not> is_absolute (join_with ''/'' xs)"
proof (cases xs)
  case Nil
  then show ?thesis by (simp add: is_absolute_def)
next
  case (Cons x ys)
  with assms show ?thesis by (cases ys; cases x) (auto simp: is_absolute_def)
qed

lemma is_absolute_abs_path: "is_absolute (abs_path cs)"
  by (cases cs) (simp_all add: abs_path_def is_absolute_def)

lemma foldl_norm_step_plain:
  "\<forall>s \<in> set cs. s \<noteq> ''.'' \<and> s \<noteq> ''..'' \<Longrightarrow> foldl norm_step st cs = st @ cs"
  by (induction cs arbitrary: st) (simp_all add: norm_step_def)

lemma foldl_norm_step_up:
  "foldl norm_step st (replicate n ''..'') = take (length st - n) st"
proof (induction n arbitrary: st)
  case 0
  then show ?case by simp
next
  case (Suc n)
  have "foldl norm_step st (replicate (Suc n) ''..'') = foldl norm_step (butlast st) (replicate n ''..'')"
    by (simp add: norm_step_def)
  also have "\<dots> = take (length (butlast st) - n) (butlast st)" by (rule Suc.IH)
  also have "\<dots> = take (length st - Suc n) st" by (simp add: butlast_conv_take)
  finally show ?case .
qed

lemma plain_namesD:
  "list_all plain_name cs \<Longrightarrow>
     (\<forall>s \<in> set cs. s \<noteq> [] \<and> CHR ''/'' \<notin> set s) \<and> (\<forall>s \<in> set cs. s \<noteq> ''.'' \<and> s \<noteq> ''..'')"
  by (auto simp: list_all_iff plain_name_def)

lemma resolve_segs_abs_path:
  "list_all plain_name cs \<Longrightarrow> resolve_segs base (abs_path cs) = cs"
  using plain_namesD[of cs]
  by (simp add: resolve_segs_def is_absolute_abs_path path_components_abs_path normalize_segs_def
        foldl_norm_step_plain)

lemma path_resolve_abs_path:
  "list_all plain_name cs \<Longrightarrow> path_resolve base (abs_path cs) = abs_path cs"
  by (simp add: path_resolve_def resolve_segs_abs_path)

lemma strip_common_prefix:
  "strip_common xs ys = (f, t) \<Longrightarrow> \<exists>c. xs = c @ f \<and> ys = c @ t"
proof (induction xs ys rule: strip_common.induct)
  case (1 x xs y ys)
  show ?case
  proof (cases "x = y")
    case True
    with 1 obtain c where "xs = c @ f \<and> ys = c @ t" by auto
    with True have "x # xs = (x # c) @ f \<and> y # ys = (x # c) @ t" by simp
    then show ?thesis by blast
  next
    case False
    with 1 show ?thesis by auto
  qed
qed auto

text \<open>A relative link made by \<^verbatim>\<open>path.relative\<close> leads back to the path it was made for.\<close>

lemma relative_leads_back:
  assumes "list_all plain_name ds" and "list_all plain_name ss"
  shows "path_resolve (abs_path ds) (path_relative base (abs_path ds) (abs_path ss)) = abs_path ss"
proof -
  obtain f t where st: "strip_common ds ss = (f, t)" by (cases "strip_common ds ss")
  from strip_common_prefix[OF this] obtain c where c: "ds = c @ f" "ss = c @ t" by blast
  let ?ups = "replicate (length f) ''..''"
  let ?rel = "join_with ''/'' (?ups @ t)"
  have rel: "path_relative base (abs_path ds) (abs_path ss) = ?rel"
    using assms st by (simp add: path_relative_def resolve_segs_abs_path)
  have tp: "\<forall>s \<in> set t. s \<noteq> [] \<and> CHR ''/'' \<notin> set s" "\<forall>s \<in> set t. s \<noteq> ''.'' \<and> s \<noteq> ''..''"
    using plain_namesD[OF assms(2)] c(2) by auto
  have segs: "\<forall>s \<in> set (?ups @ t). s \<noteq> [] \<and> CHR ''/'' \<notin> set s"
    using tp(1) by auto
  have dsp: "\<forall>s \<in> set ds. s \<noteq> [] \<and> CHR ''/'' \<notin> set s"
    using plain_namesD[OF assms(1)] by auto
  have "resolve_segs (abs_path ds) ?rel =
          normalize_segs (path_components (abs_path ds @ CHR ''/'' # ?rel))"
    using join_not_absolute[OF segs] by (simp add: resolve_segs_def)
  also have "\<dots> = normalize_segs (ds @ ?ups @ t)"
    by (simp add: path_components_append path_components_abs_path[OF dsp] path_components_join[OF segs])
  also have "\<dots> = foldl norm_step (foldl norm_step (foldl norm_step [] ds) ?ups) t"
    by (simp add: normalize_segs_def)
  also have "foldl norm_step [] ds = ds"
    using plain_namesD[OF assms(1)] by (simp add: foldl_norm_step_plain)
  also have "foldl norm_step ds ?ups = c"
    by (simp add: foldl_norm_step_up c(1))
  also have "foldl norm_step c t = ss"
    using tp(2) by (simp add: foldl_norm_step_plain c(2))
  finally show ?thesis by (simp add: path_resolve_def rel)
qed

lemma path_dirname_abs_path:
  assumes "list_all plain_name (cs @ [c])"
  shows "path_dirname (abs_path (cs @ [c])) = abs_path cs"
proof -
  have cp: "c \<noteq> []" "CHR ''/'' \<notin> set c" using plain_namesD[OF assms] by auto
  have p: "abs_path (cs @ [c]) = slashes cs @ CHR ''/'' # c"
    by (simp add: abs_path_slashes slashes_append slashes_simps)
  have lastc: "dropWhile (\<lambda>x. x = CHR ''/'') (rev c) = rev c"
    using cp by (cases "rev c") auto
  show ?thesis
  proof (cases cs)
    case Nil
    have "dropWhile (\<lambda>x. x \<noteq> CHR ''/'') (rev c) = []" using cp(2) by auto
    then show ?thesis using Nil lastc
      by (simp add: path_dirname_def p slashes_simps abs_path_def Let_def)
  next
    case (Cons c1 cs1)
    then obtain A where A: "slashes cs = CHR ''/'' # A" "A \<noteq> []"
      using plain_namesD[OF assms] by (auto simp: slashes_simps)
    have r1: "dropWhile (\<lambda>x. x = CHR ''/'') (rev c @ CHR ''/'' # rev A) = rev c @ CHR ''/'' # rev A"
      using lastc cp by (cases "rev c") (auto split: if_splits)
    have "dropWhile (\<lambda>x. x \<noteq> CHR ''/'') (rev c @ CHR ''/'' # rev A) =
            dropWhile (\<lambda>x. x \<noteq> CHR ''/'') (CHR ''/'' # rev A)"
      by (rule dropWhile_append2) (use cp(2) in auto)
    then have r2: "dropWhile (\<lambda>x. x \<noteq> CHR ''/'') (rev c @ CHR ''/'' # rev A) = CHR ''/'' # rev A"
      by simp
    have "path_dirname (abs_path (cs @ [c])) = take (Suc (length A)) (CHR ''/'' # A @ CHR ''/'' # c)"
      using A(2) by (simp add: path_dirname_def p A(1) r1 r2 Let_def)
    also have "\<dots> = slashes cs" by (simp add: A(1))
    finally show ?thesis using Cons by (simp add: abs_path_slashes)
  qed
qed

lemma abs_normD:
  assumes "abs_norm p"
  obtains cs c where "p = abs_path (cs @ [c])" "list_all plain_name (cs @ [c])"
proof -
  from assms have ne: "path_components p \<noteq> []" and pl: "list_all plain_name (path_components p)"
    and p: "p = abs_path (path_components p)"
    by (simp_all add: abs_norm_def)
  from ne have "path_components p = butlast (path_components p) @ [last (path_components p)]"
    by simp
  with p pl that show ?thesis by metis
qed

lemma path_resolve_abs_norm: "abs_norm p \<Longrightarrow> path_resolve base p = p"
  by (erule abs_normD) (simp add: path_resolve_abs_path)

lemma link_leads_back:
  assumes "abs_norm d" and "abs_norm s"
  shows "path_resolve (path_dirname d) (path_relative base (path_dirname d) s) = s"
proof -
  from assms(1) obtain cs c where d: "d = abs_path (cs @ [c])" "list_all plain_name (cs @ [c])"
    by (rule abs_normD)
  from assms(2) obtain ss z where s: "s = abs_path (ss @ [z])" "list_all plain_name (ss @ [z])"
    by (rule abs_normD)
  have dn: "path_dirname d = abs_path cs" using d by (simp add: path_dirname_abs_path)
  have "list_all plain_name cs" using d(2) by simp
  from relative_leads_back[OF this s(2)] show ?thesis by (simp add: dn s(1))
qed

lemma set_interleave: "set (interleave ss ts) = set (concat ts)"
  using mset_interleave[of ss ts] by (metis set_mset_mset)

lemma filter_in_shuffles:
  assumes "zs \<in> shuffles xs ys"
  shows "filter P zs \<in> shuffles (filter P xs) (filter P ys)"
proof -
  from assms have "filter P zs \<in> filter P ` shuffles xs ys" by (rule imageI)
  then show ?thesis by (simp add: filter_shuffles)
qed

lemma interleave_Cons_shuffles:
  "\<exists>ss'. interleave ss (t # ts) \<in> shuffles t (interleave ss' ts)"
proof (cases ss)
  case Nil
  then have "interleave ss (t # ts) \<in> shuffles t (interleave [] ts)"
    by (simp add: append_in_shuffles)
  then show ?thesis ..
next
  case (Cons s ss')
  then have "interleave ss (t # ts) \<in> shuffles t (interleave ss' ts)"
    by (simp add: merge2_shuffles)
  then show ?thesis ..
qed

lemma filter_interleave_none:
  assumes "\<forall>t \<in> set ts. filter P t = []"
  shows "filter P (interleave ss ts) = []"
  using assms unfolding filter_empty_conv set_interleave by auto

text \<open>
  When the calls that satisfy \<open>P\<close> all belong to the task of one group, they complete in
  the order of this task, however the tasks are interleaved.
\<close>

lemma filter_interleave_index:
  assumes "distinct (map fst dm)" and "(k, g) \<in> set dm"
    and "\<forall>(k', g') \<in> set dm. k' \<noteq> k \<longrightarrow> filter P (F g') = []"
  shows "filter P (interleave ss (map (\<lambda>(k, g). F g) dm)) = filter P (F g)"
  using assms
proof (induction dm arbitrary: ss)
  case Nil
  then show ?case by simp
next
  case (Cons e dm)
  obtain k1 g1 where e: "e = (k1, g1)" by (cases e)
  from interleave_Cons_shuffles[of ss "F g1" "map (\<lambda>(k, g). F g) dm"]
  obtain ss' where "interleave ss (F g1 # map (\<lambda>(k, g). F g) dm)
      \<in> shuffles (F g1) (interleave ss' (map (\<lambda>(k, g). F g) dm))" ..
  then have sh: "filter P (interleave ss (map (\<lambda>(k, g). F g) (e # dm)))
      \<in> shuffles (filter P (F g1)) (filter P (interleave ss' (map (\<lambda>(k, g). F g) dm)))"
    using e by (simp add: filter_in_shuffles)
  show ?case
  proof (cases "k1 = k")
    case True
    with Cons.prems(1,2) e have g: "g1 = g" by (auto simp: image_iff)
    have "\<forall>t \<in> set (map (\<lambda>(k, g). F g) dm). filter P t = []"
      using Cons.prems(1,3) True e by (fastforce simp: image_iff)
    then have "filter P (interleave ss' (map (\<lambda>(k, g). F g) dm)) = []"
      by (rule filter_interleave_none)
    with sh g show ?thesis by simp
  next
    case False
    with Cons.prems e have "filter P (F g1) = []" "(k, g) \<in> set dm" by auto
    moreover have "filter P (interleave ss' (map (\<lambda>(k, g). F g) dm)) = filter P (F g)"
      using Cons.IH[of ss'] Cons.prems \<open>(k, g) \<in> set dm\<close> by simp
    ultimately show ?thesis using sh by simp
  qed
qed

lemma op_key_createSymlinksForDuplicate:
  "op_key base ` set (createSymlinksForDuplicate base g) =
     (\<lambda>f. path_resolve base (path f)) ` set (tl g)"
proof (cases g)
  case Nil
  then show ?thesis by (simp add: createSymlinksForDuplicate_def)
next
  case (Cons src dupes)
  then show ?thesis
    using op_key_concat_replace_calls[of base src dupes]
    by (simp only: createSymlinksForDuplicate_calls list.sel)
qed

section \<open>A run that replaces the copies\<close>

lemma run_grouping_succeeds:
  assumes "failure (run env s1 s2 options args w0) = None"
    and "chdir env w0 (dir args) = Inr w"
    and "glob env (scan_filter (Scanner_new (dir args) (pattern options))) = Inr matches"
  obtains dm where "populateDuplicates env w s1 (map DiscoveredFile_new matches) [] = (None, dm)"
proof (cases "populateDuplicates env w s1 (map DiscoveredFile_new matches) []")
  case (Pair r dm)
  show ?thesis
  proof (cases r)
    case None
    with Pair that show ?thesis by simp
  next
    case (Some e)
    with Pair assms have False by (simp add: run_def scanFiles_def Let_def)
    then show ?thesis ..
  qed
qed

lemma follow_regular: "fs p = Some (RegFile c) \<Longrightarrow> follow n fs p = Inr c"
  by (cases n) simp_all

lemma follow_link:
  "fs p = Some (SymLink t) \<Longrightarrow> follow (Suc n) fs p = follow n fs (path_resolve (path_dirname p) t)"
  by simp

lemma digest_of_read_fault: "digest_of env w p = Some k \<Longrightarrow> read_fault env p = None"
  by (auto simp: digest_of_def readFileAsync_def split: option.splits sum.splits)

section \<open>The calls of all groups\<close>

text \<open>
  The index after \<^verbatim>\<open>removeUnique\<close>, for distinct real paths: the members of a group are
  scanned paths with the digest of the group, and they are distinct.
\<close>

lemma final_index_keys:
  assumes "populateDuplicates env w s1 (map DiscoveredFile_new matches) [] = (None, dm)"
  shows "distinct (map fst (removeUnique dm))" and "set (removeUnique dm) \<subseteq> set dm"
proof -
  note G = populateDuplicates_groups[OF assms]
  have rf: "removeUnique dm = filter (\<lambda>(k, g). length g \<noteq> 1) dm"
    using G(1) by (simp add: removeUnique_filter index_ok_def)
  show "distinct (map fst (removeUnique dm))"
    using G(1) by (simp add: rf index_ok_def distinct_map_filter)
  show "set (removeUnique dm) \<subseteq> set dm" using rf by auto
qed

lemma final_index_member:
  assumes "populateDuplicates env w s1 (map DiscoveredFile_new matches) [] = (None, dm)"
    and "\<forall>p \<in> set matches. abs_norm p"
    and "(k, g) \<in> set (removeUnique dm)" and "f \<in> set g"
  shows "path f \<in> set matches" and "digest_of env w (path f) = Some k"
    and "path_resolve base (path f) = path f"
proof -
  from assms(3,4) final_index_keys(2)[OF assms(1)]
  have "(k, g) \<in> set dm \<and> path f \<in> path ` set g" by auto
  then show "path f \<in> set matches" "digest_of env w (path f) = Some k"
    using group_members[OF assms(1), of k g "path f"] by simp_all
  then show "path_resolve base (path f) = path f"
    using assms(2) by (simp add: path_resolve_abs_norm)
qed

lemma final_index_distinct:
  assumes "populateDuplicates env w s1 (map DiscoveredFile_new matches) [] = (None, dm)"
    and "distinct matches" and "\<forall>p \<in> set matches. abs_norm p"
    and "(k, g) \<in> set (removeUnique dm)"
  shows "distinct (map (\<lambda>f. path_resolve base (path f)) g)"
proof -
  have "(k, g) \<in> set dm" using assms(4) final_index_keys(2)[OF assms(1)] by auto
  then have "map path g = filter (\<lambda>p. digest_of env w p = Some k) (completion_order s1 matches)"
    by (rule group_paths[OF assms(1)])
  moreover have "distinct (completion_order s1 matches)"
    using assms(2) mset_completion_order[of s1 matches]
    by (metis distinct_count_atmost_1 set_mset_mset)
  ultimately have d: "distinct (map path g)" by (metis distinct_filter)
  have e: "map (\<lambda>f. path_resolve base (path f)) g = map path g"
    by (rule map_cong[OF refl]) (use final_index_member(3)[OF assms(1,3,4)] in blast)
  show ?thesis unfolding e by (rule d)
qed

text \<open>A call on the path of a member of a group is a call of the task of this group.\<close>

lemma call_of_group:
  assumes "populateDuplicates env w s1 (map DiscoveredFile_new matches) [] = (None, dm)"
    and "\<forall>p \<in> set matches. abs_norm p"
    and "(k, g) \<in> set (removeUnique dm)" and "x \<in> set g"
    and "(k', g') \<in> set (removeUnique dm)" and "c \<in> set (createSymlinksForDuplicate base g')"
    and "op_key base c = path x"
  shows "k' = k" and "g' = g"
proof -
  from assms(6) have "op_key base c \<in> (\<lambda>f. path_resolve base (path f)) ` set (tl g')"
    using op_key_createSymlinksForDuplicate[of base g'] by blast
  then obtain f where f: "f \<in> set (tl g')" "op_key base c = path_resolve base (path f)" by blast
  then have fg: "f \<in> set g'" by (cases g') auto
  have "path f = path x"
    using final_index_member(3)[OF assms(1,2,5) fg, of base] f(2) assms(7) by simp
  then show "k' = k"
    using final_index_member(2)[OF assms(1,2,5) fg] final_index_member(2)[OF assms(1,2,3,4)]
    by simp
  then show "g' = g"
    using assms(3,5) final_index_keys(1)[OF assms(1)] by (metis eq_key_imp_eq_value)
qed

lemma calls_on_copy:
  assumes "populateDuplicates env w s1 (map DiscoveredFile_new matches) [] = (None, dm)"
    and "distinct matches" and "\<forall>p \<in> set matches. abs_norm p"
    and "(k, src # dupes) \<in> set (removeUnique dm)" and "d \<in> set dupes"
  shows "filter (\<lambda>c. op_key base c = path d)
           (interleave s2 (map (\<lambda>(sha, g). createSymlinksForDuplicate base g) (removeUnique dm)))
         = replace_calls base src d"
proof -
  let ?F = "createSymlinksForDuplicate base"
  have d: "d \<in> set (src # dupes)" using assms(5) by simp
  have kd: "path_resolve base (path d) = path d"
    by (rule final_index_member(3)[OF assms(1,3,4) d])
  have other: "\<forall>(k', g') \<in> set (removeUnique dm). k' \<noteq> k \<longrightarrow>
                 filter (\<lambda>c. op_key base c = path d) (?F g') = []"
    unfolding filter_empty_conv
    using call_of_group(1)[OF assms(1,3,4) d] by fastforce
  have "distinct (map (\<lambda>f. path_resolve base (path f)) dupes)"
    using final_index_distinct[OF assms(1-4), of base] by simp
  from filter_replace_calls[OF this assms(5), of src]
  have "filter (\<lambda>c. op_key base c = path d) (?F (src # dupes)) = replace_calls base src d"
    by (simp add: createSymlinksForDuplicate_calls kd)
  then show ?thesis
    using filter_interleave_index[OF final_index_keys(1)[OF assms(1)] assms(4) other, of s2]
    by simp
qed

lemma no_call_on_source:
  assumes "populateDuplicates env w s1 (map DiscoveredFile_new matches) [] = (None, dm)"
    and "distinct matches" and "\<forall>p \<in> set matches. abs_norm p"
    and "(k, src # dupes) \<in> set (removeUnique dm)"
  shows "path src \<notin> op_key base `
           set (interleave s2 (map (\<lambda>(sha, g). createSymlinksForDuplicate base g) (removeUnique dm)))"
proof
  let ?F = "createSymlinksForDuplicate base"
  let ?K = "\<lambda>f. path_resolve base (path f)"
  assume "path src \<in> op_key base ` set (interleave s2 (map (\<lambda>(sha, g). ?F g) (removeUnique dm)))"
  then obtain c k' g' where c: "op_key base c = path src"
    and kg: "(k', g') \<in> set (removeUnique dm)" "c \<in> set (?F g')"
    unfolding set_interleave by auto
  have s: "src \<in> set (src # dupes)" by simp
  have "g' = src # dupes" using call_of_group(2)[OF assms(1,3,4) s kg c] .
  with kg(2) have "op_key base c \<in> ?K ` set dupes"
    using op_key_createSymlinksForDuplicate[of base "src # dupes"] by auto
  moreover have "?K src = path src" by (rule final_index_member(3)[OF assms(1,3,4) s])
  moreover have "distinct (map ?K (src # dupes))" by (rule final_index_distinct[OF assms(1-4)])
  ultimately show False using c by simp
qed

section \<open>When no call fails\<close>

lemma exec_ops_last_unlink:
  "exec_ops env cs w = (None, w') \<Longrightarrow>
   filter (\<lambda>c. op_key (cwd w) c = \<kappa>) cs = pre @ [Unlink p] \<Longrightarrow>
   files w' \<kappa> = None"
proof (induction cs arbitrary: w pre)
  case Nil
  then show ?case by simp
next
  case (Cons c cs)
  from Cons.prems(1) obtain w1 where w1: "exec_op env w c = Inr w1" "exec_ops env cs w1 = (None, w')"
    by (cases "exec_op env w c") auto
  have c1: "cwd w1 = cwd w" using w1(1) by (rule exec_op_cwd)
  show ?case
  proof (cases "filter (\<lambda>c. op_key (cwd w) c = \<kappa>) cs = []")
    case True
    with Cons.prems(2) have c: "c = Unlink p" "op_key (cwd w) c = \<kappa>" "pre = []"
      by (auto split: if_splits simp: Cons_eq_append_conv)
    have "files w1 \<kappa> = None"
      using w1(1) c by (auto simp: unlinkAsync_def op_key_def split: option.splits)
    moreover have "\<kappa> \<notin> op_key (cwd w1) ` set cs"
      using True c1 by (auto simp: filter_empty_conv)
    ultimately show ?thesis using exec_ops_frame[OF w1(2)] by simp
  next
    case False
    with Cons.prems(2) obtain pre' where "filter (\<lambda>c. op_key (cwd w) c = \<kappa>) cs = pre' @ [Unlink p]"
      by (cases pre) (auto split: if_splits)
    then show ?thesis using Cons.IH[OF w1(2), of pre'] c1 by simp
  qed
qed

text \<open>
  Calls in which every path is first removed and then linked, on paths that hold a file,
  all succeed when the operating system refuses none of them.
\<close>

lemma exec_ops_succeeds:
  assumes nf: "\<forall>p. unlink_fault env p = None" "\<forall>p. symlink_fault env p = None"
    and shape: "\<forall>c \<in> set cs. \<exists>t. filter (\<lambda>c'. op_key (cwd w) c' = op_key (cwd w) c) cs =
                    [Unlink (op_path c), Symlink t (op_path c)]"
    and present: "\<forall>c \<in> set cs. files w (op_key (cwd w) c) \<noteq> None"
  shows "fst (exec_ops env cs w) = None"
proof (rule ccontr)
  assume "fst (exec_ops env cs w) \<noteq> None"
  then obtain e w' where "exec_ops env cs w = (Some e, w')"
    by (cases "exec_ops env cs w") auto
  from exec_ops_fails_before[OF this] obtain pre c post where
    sp: "cs = pre @ c # post" and ok: "exec_ops env pre w = (None, w')"
    and bad: "exec_op env w' c = Inl e" by blast
  let ?P = "\<lambda>c'. op_key (cwd w) c' = op_key (cwd w) c"
  have c1: "cwd w' = cwd w" using ok by (rule exec_ops_cwd)
  from shape sp obtain t where
    f: "filter ?P pre @ c # filter ?P post = [Unlink (op_path c), Symlink t (op_path c)]"
    by fastforce
  show False
  proof (cases "filter ?P pre")
    case Nil
    with f have c: "c = Unlink (op_path c)" by simp
    have "op_key (cwd w) c \<notin> op_key (cwd w) ` set pre"
      using Nil by (auto simp: filter_empty_conv)
    then have "files w' (op_key (cwd w) c) = files w (op_key (cwd w) c)"
      by (rule exec_ops_frame[OF ok])
    moreover have "files w (op_key (cwd w) c) \<noteq> None" using present sp by simp
    moreover have "files w' (op_key (cwd w) c) = None"
      using bad c nf(1) c1 unfolding op_key_def
      by (metis exec_op.simps(1) unlinkAsync_def option.case_eq_if option.simps(4) sum.distinct(1))
    ultimately show False by simp
  next
    case (Cons u us)
    with f have u: "filter ?P pre = [] @ [Unlink (op_path c)]" and c: "c = Symlink t (op_path c)"
      by (cases us; auto)+
    from exec_ops_last_unlink[OF ok u] have "files w' (op_key (cwd w) c) = None" .
    then have "exec_op env w' c \<noteq> Inl e"
      using nf(2) c c1 unfolding op_key_def
      by (metis exec_op.simps(2) symlinkAsync_def option.simps(4) sum.distinct(1))
    with bad show False by simp
  qed
qed

lemma populate_loop_succeeds:
  "\<forall>p \<in> set ps. \<exists>b. readFileAsync env w p = Inr b \<Longrightarrow>
   fst (populate_loop env w (map DiscoveredFile_new ps) dm) = None"
proof (induction ps arbitrary: dm)
  case Nil
  then show ?case by simp
next
  case (Cons p ps)
  then obtain b where "readFileAsync env w p = Inr b" by auto
  then show ?case using Cons by (simp add: detectDuplicate_DiscoveredFile_new)
qed

text \<open>
  A run over distinct real paths of regular files, in which the operating system refuses
  nothing, ends without an error, whatever the order in which the calls complete.
\<close>

lemma run_succeeds:
  assumes "chdir env w0 (dir args) = Inr w"
    and "glob env (scan_filter (Scanner_new (dir args) (pattern options))) = Inr matches"
    and "distinct matches"
    and "\<forall>p \<in> set matches. abs_norm p"
    and "\<forall>p \<in> set matches. \<exists>c. files w0 p = Some (RegFile c)"
    and "\<forall>p. read_fault env p = None"
    and "\<forall>p. unlink_fault env p = None" and "\<forall>p. symlink_fault env p = None"
  shows "failure (run env s1 s2 options args w0) = None"
proof -
  let ?base = "cwd w"
  let ?F = "createSymlinksForDuplicate ?base"
  have fw: "files w = files w0"
    using assms(1) by (auto simp: chdir_def split: option.splits)
  have "\<exists>b. readFileAsync env w p = Inr b" if "p \<in> set matches" for p
  proof -
    from that assms(5) obtain c where "files w p = Some (RegFile c)" using fw by auto
    then have "readFileAsync env w p = Inr c"
      using assms(4,6) that by (simp add: readFileAsync_def path_resolve_abs_norm follow_regular)
    then show ?thesis ..
  qed
  then have "fst (populate_loop env w (map DiscoveredFile_new (completion_order s1 matches)) []) = None"
    using mset_completion_order[of s1 matches]
    by (intro populate_loop_succeeds) (metis set_mset_mset)
  then obtain dm where
    pop: "populateDuplicates env w s1 (map DiscoveredFile_new matches) [] = (None, dm)"
    by (metis populateDuplicates_def completion_order_map prod.collapse)
  note R = run_after_grouping[OF assms(1,2) pop, of s2]
  let ?dm = "removeUnique dm"
  let ?merged = "interleave s2 (map (\<lambda>(sha, g). ?F g) ?dm)"
  have shape: "\<exists>t. filter (\<lambda>c'. op_key ?base c' = op_key ?base c) ?merged =
                 [Unlink (op_path c), Symlink t (op_path c)]"
    and present: "files w (op_key ?base c) \<noteq> None"
    if "c \<in> set ?merged" for c
  proof -
    from that obtain k g where kg: "(k, g) \<in> set ?dm" "c \<in> set (?F g)"
      unfolding set_interleave by auto
    then obtain src dupes where g: "g = src # dupes"
      by (cases g) (auto simp: createSymlinksForDuplicate_def)
    with kg(2) obtain x where x: "x \<in> set dupes" "c \<in> set (replace_calls ?base src x)"
      by (auto simp: createSymlinksForDuplicate_calls)
    then have xg: "x \<in> set g" using g by simp
    have pc: "op_path c = path x" using x(2) by (auto simp: replace_calls_def)
    have kx: "op_key ?base c = path x"
      using final_index_member(3)[OF pop assms(4) kg(1) xg, of ?base] pc by (simp add: op_key_def)
    have "filter (\<lambda>c'. op_key ?base c' = op_key ?base c) ?merged = replace_calls ?base src x"
      using calls_on_copy[OF pop assms(3,4) kg(1)[unfolded g] x(1), of ?base s2] kx by simp
    then show "\<exists>t. filter (\<lambda>c'. op_key ?base c' = op_key ?base c) ?merged =
                 [Unlink (op_path c), Symlink t (op_path c)]"
      by (simp add: replace_calls_def pc)
    have "path x \<in> set matches" by (rule final_index_member(1)[OF pop assms(4) kg(1) xg])
    then show "files w (op_key ?base c) \<noteq> None" using assms(5) fw kx by auto
  qed
  have "fst (exec_ops env ?merged w) = None"
    by (rule exec_ops_succeeds[OF assms(7,8)]) (use shape present in blast)+
  then have "fst (createSymlinks env s2 ?dm w) = None" by (simp add: createSymlinks_def)
  then show ?thesis using R(4) by simp
qed

section \<open>The lines of a dry run\<close>





subsection \<open>Texts without a line feed are lines\<close>







subsection \<open>The characters of a relative path\<close>

lemma split_path_chars: "s \<in> set (split_path p) \<Longrightarrow> set s \<subseteq> set p"
proof (induction p arbitrary: s)
  case Nil
  then show ?case by simp
next
  case (Cons c p)
  show ?case
  proof (cases "c = CHR ''/''")
    case True
    with Cons.prems have "s = [] \<or> s \<in> set (split_path p)" by simp
    then show ?thesis using Cons.IH by auto
  next
    case False
    obtain a as where sp: "split_path p = a # as"
      using split_path_not_Nil[of p] by (cases "split_path p") auto
    with False Cons.prems have "s = c # a \<or> s \<in> set as" by simp
    moreover have "set a \<subseteq> set p" using Cons.IH[of a] sp by simp
    moreover have "s \<in> set as \<Longrightarrow> set s \<subseteq> set p" using Cons.IH[of s] sp by simp
    ultimately show ?thesis by auto
  qed
qed

lemma path_components_chars: "s \<in> set (path_components p) \<Longrightarrow> set s \<subseteq> set p"
  by (auto simp: path_components_def dest: split_path_chars)

lemma foldl_norm_step_subset: "set (foldl norm_step st cs) \<subseteq> set st \<union> set cs"
proof (induction cs arbitrary: st)
  case Nil
  then show ?case by simp
next
  case (Cons c cs)
  have "set (norm_step st c) \<subseteq> set st \<union> {c}"
    by (auto simp: norm_step_def dest: in_set_butlastD)
  with Cons[of "norm_step st c"] show ?case by auto
qed

lemma join_with_chars: "set (join_with sep xs) \<subseteq> set sep \<union> \<Union> (set ` set xs)"
  by (induction sep xs rule: join_with.induct) auto

lemma path_relative_chars:
  assumes "is_absolute to"
  shows "set (path_relative base from to) \<subseteq> {CHR ''/'', CHR ''.''} \<union> set to"
proof -
  obtain f t where st: "strip_common (resolve_segs base from) (resolve_segs base to) = (f, t)"
    by (cases "strip_common (resolve_segs base from) (resolve_segs base to)")
  from strip_common_prefix[OF this] have "set t \<subseteq> set (resolve_segs base to)" by auto
  also have "\<dots> \<subseteq> set (path_components to)"
    using assms foldl_norm_step_subset[of "[]" "path_components to"]
    by (simp add: resolve_segs_def normalize_segs_def)
  finally have t: "\<forall>s \<in> set t. set s \<subseteq> set to" by (auto dest: path_components_chars)
  have "set (path_relative base from to) \<subseteq>
          set ''/'' \<union> \<Union> (set ` set (replicate (length f) ''..'' @ t))"
    using join_with_chars[of "''/''" "replicate (length f) ''..'' @ t"]
    by (simp add: path_relative_def st)
  also have "\<dots> \<subseteq> {CHR ''/'', CHR ''.''} \<union> set to" using t by auto
  finally show ?thesis .
qed

text \<open>
  The relative path to an absolute path without a line feed holds no line feed.
\<close>

lemma path_relative_no_line_feed:
  "is_absolute to \<Longrightarrow> line_feed \<notin> set to \<Longrightarrow>
   line_feed \<notin> set (path_relative base from to)"
  using path_relative_chars[of to base "from"] by (auto simp: line_feed_def)


section \<open>A failing call in a run\<close>

lemma distinct_replace_calls:
  "distinct (map (\<lambda>f. path_resolve base (path f)) xs) \<Longrightarrow>
   distinct (concat (map (replace_calls base src) xs))"
proof (induction xs)
  case Nil
  then show ?case by simp
next
  case (Cons x xs)
  have "set (replace_calls base src x) \<inter> set (concat (map (replace_calls base src) xs)) = {}"
  proof (rule ccontr)
    assume "set (replace_calls base src x) \<inter> set (concat (map (replace_calls base src) xs)) \<noteq> {}"
    then obtain c where c: "c \<in> set (replace_calls base src x)"
      "c \<in> set (concat (map (replace_calls base src) xs))" by blast
    from c(1) have "op_key base c = path_resolve base (path x)"
      using op_key_replace_calls[of base src x] by blast
    moreover from c(2) have "op_key base c \<in> (\<lambda>f. path_resolve base (path f)) ` set xs"
      using op_key_concat_replace_calls[of base src xs] by blast
    ultimately show False using Cons.prems by auto
  qed
  moreover have "distinct (replace_calls base src x)" by (simp add: replace_calls_def)
  ultimately show ?case using Cons by simp
qed

lemma distinct_split_unique:
  assumes "distinct (as @ c # bs)" and "as @ c # bs = as' @ c # bs'"
  shows "as = as' \<and> bs = bs'"
proof -
  from assms(1) have "c \<notin> set as" "c \<notin> set bs" by auto
  then show ?thesis using assms(2) by (simp add: append_Cons_eq_iff)
qed

text \<open>
  In a run over distinct real paths, for every order in which the calls complete: when a
  call fails, it is a call on some copy of some group, and the copies after it in this
  group are as they were before the run.
\<close>

lemma failing_run_spares_later_copies:
  assumes "populateDuplicates env w s1 (map DiscoveredFile_new matches) [] = (None, dm)"
    and "distinct matches" and "\<forall>p \<in> set matches. abs_norm p"
    and "createSymlinks env s2 (removeUnique dm) w = (Some e, w')"
  shows "\<exists>k src done d rest t. (k, src # done @ d # rest) \<in> set (removeUnique dm)
      \<and> (exec_op env w' (Unlink (path d)) = Inl e \<or> exec_op env w' (Symlink t (path d)) = Inl e)
      \<and> (\<forall>x \<in> set rest. files w' (path x) = files w (path x))"
proof -
  let ?base = "cwd w"
  let ?F = "createSymlinksForDuplicate ?base"
  let ?dm = "removeUnique dm"
  let ?merged = "interleave s2 (map (\<lambda>(sha, g). ?F g) ?dm)"
  from assms(4) have "exec_ops env ?merged w = (Some e, w')" by (simp add: createSymlinks_def)
  from exec_ops_fails_before[OF this] obtain pre c post where
    sp: "?merged = pre @ c # post" and ok: "exec_ops env pre w = (None, w')"
    and bad: "exec_op env w' c = Inl e" by blast
  have "c \<in> set ?merged" using sp by simp
  then obtain k g where kg: "(k, g) \<in> set ?dm" "c \<in> set (?F g)"
    unfolding set_interleave by auto
  then obtain src dupes where g: "g = src # dupes"
    by (cases g) (auto simp: createSymlinksForDuplicate_def)
  note mem = kg(1)[unfolded g]
  from kg(2) g obtain d where d: "d \<in> set dupes" "c \<in> set (replace_calls ?base src d)"
    by (auto simp: createSymlinksForDuplicate_calls)
  from d(1) obtain "done" rest where dupes: "dupes = done @ d # rest" by (meson split_list)
  have dK: "distinct (map (\<lambda>f. path_resolve ?base (path f)) dupes)"
    using final_index_distinct[OF assms(1-3) mem, of ?base] by simp
  \<comment> \<open>the calls of the group complete in the order of its task\<close>
  let ?P = "\<lambda>c'. c' \<in> set (?F g)"
  have other: "\<forall>(k', g') \<in> set ?dm. k' \<noteq> k \<longrightarrow> filter ?P (?F g') = []"
  proof (clarify)
    fix k' g' assume a: "(k', g') \<in> set ?dm" "k' \<noteq> k"
    have "c' \<notin> set (?F g)" if "c' \<in> set (?F g')" for c'
    proof
      assume "c' \<in> set (?F g)"
      then have "op_key ?base c' \<in> (\<lambda>f. path_resolve ?base (path f)) ` set (tl g)"
        using op_key_createSymlinksForDuplicate[of ?base g] by blast
      then obtain y where y: "y \<in> set (tl g)" "op_key ?base c' = path_resolve ?base (path y)" by blast
      then have yg: "y \<in> set g" by (cases g) auto
      have "op_key ?base c' = path y"
        using final_index_member(3)[OF assms(1,3) kg(1) yg, of ?base] y(2) by simp
      from call_of_group(1)[OF assms(1,3) kg(1) yg a(1) that this] a(2) show False by simp
    qed
    then show "filter ?P (?F g') = []" by (auto simp: filter_empty_conv)
  qed
  have "filter ?P ?merged = filter ?P (?F g)"
    using final_index_keys(1)[OF assms(1)] kg(1) other by (rule filter_interleave_index)
  then have fm: "filter ?P pre @ c # filter ?P post = ?F g" using sp kg(2) by simp
  \<comment> \<open>the calls of the task around the failing call\<close>
  let ?calls = "\<lambda>xs. concat (map (replace_calls ?base src) xs)"
  have Fg: "?F g = ?calls done @ replace_calls ?base src d @ ?calls rest"
    by (simp add: g dupes createSymlinksForDuplicate_calls)
  have dF: "distinct (?F g)"
    using distinct_replace_calls[OF dK, of src] by (simp add: g createSymlinksForDuplicate_calls)
  obtain A B where AB: "?F g = A @ c # B" "set (?calls rest) \<subseteq> set B"
  proof -
    from d(2) consider "c = Unlink (path d)"
      | "c = Symlink (path_relative ?base (path_dirname (path d)) (path src)) (path d)"
      by (auto simp: replace_calls_def)
    then show ?thesis
    proof cases
      case 1
      then have "?F g = ?calls done @ c #
          (Symlink (path_relative ?base (path_dirname (path d)) (path src)) (path d) # ?calls rest)"
        using Fg by (simp add: replace_calls_def)
      then show ?thesis
        using that[of "?calls done"
          "Symlink (path_relative ?base (path_dirname (path d)) (path src)) (path d) # ?calls rest"]
        by auto
    next
      case 2
      then have "?F g = (?calls done @ [Unlink (path d)]) @ c # ?calls rest"
        using Fg by (simp add: replace_calls_def)
      then show ?thesis
        using that[of "?calls done @ [Unlink (path d)]" "?calls rest"] by simp
    qed
  qed
  have e: "A @ c # B = filter ?P pre @ c # filter ?P post"
    using AB(1)[symmetric] fm[symmetric] by (rule trans)
  have dA: "distinct (A @ c # B)" using dF unfolding AB(1) .
  have "A = filter ?P pre \<and> B = filter ?P post"
    using dA e by (rule distinct_split_unique)
  moreover have "set A \<inter> set (?calls rest) = {}"
    using dA AB(2) by auto
  ultimately have preA: "set (filter ?P pre) \<inter> set (?calls rest) = {}"
    by metis
  \<comment> \<open>no call on a later copy has completed\<close>
  have untouched: "files w' (path x) = files w (path x)" if "x \<in> set rest" for x
  proof -
    have xd: "x \<in> set dupes" using that dupes by simp
    have "path x \<notin> op_key ?base ` set pre"
    proof
      assume "path x \<in> op_key ?base ` set pre"
      then obtain c' where c': "c' \<in> set pre" "op_key ?base c' = path x" by auto
      then have "c' \<in> set (filter (\<lambda>c. op_key ?base c = path x) ?merged)" using sp by simp
      then have cx: "c' \<in> set (replace_calls ?base src x)"
        using calls_on_copy[OF assms(1-3) mem xd, of ?base s2] by simp
      then have "c' \<in> set (?calls rest)" using that by auto
      moreover have "c' \<in> set (?F g)" using cx xd by (auto simp: g createSymlinksForDuplicate_calls)
      then have "c' \<in> set (filter ?P pre)" using c'(1) by simp
      ultimately show False using preA by blast
    qed
    then show ?thesis by (rule exec_ops_frame[OF ok])
  qed
  from d(2) have "exec_op env w' (Unlink (path d)) = Inl e \<or>
      exec_op env w' (Symlink (path_relative ?base (path_dirname (path d)) (path src)) (path d)) = Inl e"
    using bad by (auto simp: replace_calls_def)
  with mem dupes untouched show ?thesis by blast
qed

section \<open>What the scanner asks for\<close>

text \<open>
  Without patterns the scanner takes the one pattern \<^verbatim>\<open>*\<close>; the patterns are handed to
  \<^verbatim>\<open>glob\<close> as the alternatives of one filter, and the files of the run are the paths
  \<^verbatim>\<open>glob\<close> returns for it, in its order. Which paths these are is decided by
  \<^verbatim>\<open>glob\<close>, which is not part of the program.
\<close>

lemma scanner_default_pattern: "patterns (Scanner_new root []) = [''*'']"
  by (simp add: Scanner_new_def)

lemma scanner_default_filter: "scan_filter (Scanner_new root []) = ''**/+(*)''"
  by (simp add: Scanner_new_def scan_filter_def)

lemma scanner_filter:
  "pats \<noteq> [] \<Longrightarrow> scan_filter (Scanner_new root pats) = ''**/+('' @ join_with ''|'' pats @ '')''"
  by (simp add: Scanner_new_def scan_filter_def)

lemma scanFiles_paths:
  "glob env (scan_filter sc) = Inr matches \<Longrightarrow>
   scanFiles env sc = Inr (map DiscoveredFile_new matches)"
  by (simp add: scanFiles_def)

section \<open>The claims\<close>

text \<open>
  Claim C1. When the grouping pass has read every file, two scanned files are in the same
  group exactly when their digests are equal; every scanned file is in exactly one group;
  and files with the same content are in the same group. This holds for every order in
  which the reads complete.
\<close>

theorem grouping_by_digest:
  assumes "populateDuplicates env w sched (map DiscoveredFile_new matches) [] = (None, dm)"
    and "p \<in> set matches" and "q \<in> set matches"
  shows "((\<exists>(k, g) \<in> set dm. p \<in> path ` set g \<and> q \<in> path ` set g) \<longleftrightarrow>
            digest_of env w p = digest_of env w q)
       \<and> (\<exists>!kg. kg \<in> set dm \<and> p \<in> path ` set (snd kg))
       \<and> (readFileAsync env w p = readFileAsync env w q \<longrightarrow>
            (\<exists>(k, g) \<in> set dm. p \<in> path ` set g \<and> q \<in> path ` set g))"
proof -
  note M = group_members[OF assms(1)]
  note G = populateDuplicates_groups[OF assms(1)]
  from G(2) assms(2) obtain kp where kp: "digest_of env w p = Some kp" by auto
  from G(2) assms(3) obtain kq where kq: "digest_of env w q = Some kq" by auto
  have iff: "(\<exists>(k, g) \<in> set dm. p \<in> path ` set g \<and> q \<in> path ` set g) \<longleftrightarrow>
            digest_of env w p = digest_of env w q"
  proof
    assume "\<exists>(k, g) \<in> set dm. p \<in> path ` set g \<and> q \<in> path ` set g"
    then obtain k g where "(k, g) \<in> set dm \<and> p \<in> path ` set g" "(k, g) \<in> set dm \<and> q \<in> path ` set g"
      by auto
    then have "digest_of env w p = Some k" "digest_of env w q = Some k"
      using M[of k g p] M[of k g q] by auto
    then show "digest_of env w p = digest_of env w q" by simp
  next
    assume e: "digest_of env w p = digest_of env w q"
    have "(kp, grp dm kp) \<in> set dm \<and> p \<in> path ` set (grp dm kp)"
      using M[of kp "grp dm kp" p] kp assms(2) by simp
    moreover have "(kp, grp dm kp) \<in> set dm \<and> q \<in> path ` set (grp dm kp)"
      using M[of kp "grp dm kp" q] kp e assms(3) by simp
    ultimately show "\<exists>(k, g) \<in> set dm. p \<in> path ` set g \<and> q \<in> path ` set g" by blast
  qed
  have one: "\<exists>!kg. kg \<in> set dm \<and> p \<in> path ` set (snd kg)"
  proof (rule ex1I[of _ "(kp, grp dm kp)"])
    show "(kp, grp dm kp) \<in> set dm \<and> p \<in> path ` set (snd (kp, grp dm kp))"
      using M[of kp "grp dm kp" p] kp assms(2) by simp
  next
    fix kg assume a: "kg \<in> set dm \<and> p \<in> path ` set (snd kg)"
    obtain k g where kg: "kg = (k, g)" by (cases kg)
    with a M[of k g p] kp show "kg = (kp, grp dm kp)" by auto
  qed
  have "digest_of env w p = digest_of env w q" if "readFileAsync env w p = readFileAsync env w q"
    using that by (simp add: digest_of_def)
  with iff one show ?thesis by blast
qed

text \<open>The two identical files of the example end in one group.\<close>

theorem grouping_by_digest_witness:
  "populateDuplicates env_ab world_ab [] (map DiscoveredFile_new [''/d/a.txt'', ''/d/b.txt'']) [] = (None, dm_ab)
   \<and> ((\<exists>(k, g) \<in> set dm_ab. ''/d/a.txt'' \<in> path ` set g \<and> ''/d/b.txt'' \<in> path ` set g) \<longleftrightarrow>
            digest_of env_ab world_ab ''/d/a.txt'' = digest_of env_ab world_ab ''/d/b.txt'')
   \<and> digest_of env_ab world_ab ''/d/a.txt'' = Some ''hello''"
proof -
  have h: "populateDuplicates env_ab world_ab [] (map DiscoveredFile_new [''/d/a.txt'', ''/d/b.txt'']) [] = (None, dm_ab)"
    by code_simp
  have d: "digest_of env_ab world_ab ''/d/a.txt'' = Some ''hello''" by code_simp
  from grouping_by_digest[OF h, of "''/d/a.txt''" "''/d/b.txt''"] h d show ?thesis by simp
qed
text \<open>
  Claim C2. For the two identical files the run prints 2 matched files, 1 unique file and
  1 duplicated file, and then 0 copies, where the claim has 1: the count printed is the
  number of files less the number of digests less the number of duplicate groups.
\<close>

theorem summary_of_two_identical_files:
  "stdout (run env_ab [] [] \<lparr>dryRun = False, pattern = [''*'']\<rparr> \<lparr>dir = ''/d''\<rparr> world_ab) =
     [''Scanning...'', ''Matched 2 files'', ''Looking for duplicates...'',
      ''Found 1 unique files'', ''Found 1 files with 0 copies'',
      ''Creating symlinks...'', ''Deduplication finished'']"
  by code_simp

text \<open>
  Claim C3, as amended. The files enter their group in the order in which their reads
  complete, so the first member of a duplicate group, the one the links will point to, is
  the member whose read completed first. The choice depends on this order only; when the
  reads complete in the order of discovery, it is the member discovered first.
\<close>

theorem canonical_is_first_completed:
  assumes "populateDuplicates env w sched (map DiscoveredFile_new matches) [] = (None, dm)"
    and "(k, g) \<in> set (removeUnique dm)"
  shows "map path g = filter (\<lambda>p. digest_of env w p = Some k) (completion_order sched matches)
       \<and> g \<noteq> []
       \<and> path (hd g) = hd (filter (\<lambda>p. digest_of env w p = Some k) (completion_order sched matches))
       \<and> (sched = [] \<longrightarrow> path (hd g) = hd (filter (\<lambda>p. digest_of env w p = Some k) matches))"
proof -
  note G = populateDuplicates_groups[OF assms(1)]
  have "(k, g) \<in> set dm"
    using assms(2) G(1) by (auto simp: removeUnique_filter index_ok_def)
  then have g: "g \<noteq> []" "grp dm k = g" using index_ok_entry[OF G(1)] by auto
  have m: "map path g = filter (\<lambda>p. digest_of env w p = Some k) (completion_order sched matches)"
    using G(3)[of k] g(2) by (simp add: comp_def hashed_def)
  have "path (hd g) = hd (map path g)" using g(1) by (simp add: hd_map)
  with m g(1) show ?thesis by (auto simp: completion_order_Nil)
qed

text \<open>
  With the read of \<^verbatim>\<open>/d/b.txt\<close> completing first, \<^verbatim>\<open>/d/b.txt\<close> is the first member.
\<close>

theorem canonical_is_first_completed_witness:
  "populateDuplicates env_ab world_ab [[False]]
      (map DiscoveredFile_new [''/d/a.txt'', ''/d/b.txt'']) [] =
      (None, [(''hello'', [hashed ''hello'' ''/d/b.txt'', hashed ''hello'' ''/d/a.txt''])])
   \<and> completion_order [[False]] [''/d/a.txt'', ''/d/b.txt''] = [''/d/b.txt'', ''/d/a.txt'']
   \<and> path (hd [hashed ''hello'' ''/d/b.txt'', hashed ''hello'' ''/d/a.txt'']) =
       hd (filter (\<lambda>p. digest_of env_ab world_ab p = Some ''hello'')
             (completion_order [[False]] [''/d/a.txt'', ''/d/b.txt'']))"
proof -
  let ?dm = "[(''hello'', [hashed ''hello'' ''/d/b.txt'', hashed ''hello'' ''/d/a.txt''])]"
  have h: "populateDuplicates env_ab world_ab [[False]]
      (map DiscoveredFile_new [''/d/a.txt'', ''/d/b.txt'']) [] = (None, ?dm)"
    by code_simp
  have r: "(''hello'', [hashed ''hello'' ''/d/b.txt'', hashed ''hello'' ''/d/a.txt''])
            \<in> set (removeUnique ?dm)"
    by code_simp
  have c: "completion_order [[False]] [''/d/a.txt'', ''/d/b.txt''] = [''/d/b.txt'', ''/d/a.txt'']"
    by code_simp
  from canonical_is_first_completed[OF h r] h c show ?thesis by simp
qed

text \<open>
  Claim C3 as it is written fails. The scanner finds \<^verbatim>\<open>/d/a.txt\<close> before
  \<^verbatim>\<open>/d/b.txt\<close> in both runs; in the run in which the read of \<^verbatim>\<open>/d/b.txt\<close> completes
  first the group starts with \<^verbatim>\<open>/d/b.txt\<close>, in the other run with \<^verbatim>\<open>/d/a.txt\<close>.
\<close>

theorem canonical_not_first_discovered:
  "glob env_ab (scan_filter (Scanner_new ''/d'' [])) = Inr [''/d/a.txt'', ''/d/b.txt'']
   \<and> duplicatesMap (run env_ab [[False]] [] \<lparr>dryRun = True, pattern = []\<rparr> \<lparr>dir = ''/d''\<rparr> world_ab)
      = [(''hello'', [hashed ''hello'' ''/d/b.txt'', hashed ''hello'' ''/d/a.txt''])]
   \<and> duplicatesMap (run env_ab [] [] \<lparr>dryRun = True, pattern = []\<rparr> \<lparr>dir = ''/d''\<rparr> world_ab)
      = [(''hello'', [hashed ''hello'' ''/d/a.txt'', hashed ''hello'' ''/d/b.txt''])]
   \<and> path (hd [hashed ''hello'' ''/d/b.txt'', hashed ''hello'' ''/d/a.txt'']) \<noteq> ''/d/a.txt''"
  by code_simp

text \<open>
  Claim C4. In a run that is not dry, finds a duplicate group and ends without an error,
  the calls made for the group are, for every member but the first and in the order of
  the group, the removal of the member and then the creation of a link at its path to the
  first member, relative to the directory of the member. After the run every such member
  is this link, the first member is the file it was, and reading the member gives what
  reading the first member gives: the content the first member had before the run.
  The scanner's paths are distinct real paths of regular files. (Such a run does end
  without an error when the operating system refuses no call: \<open>run_succeeds\<close>.)
\<close>

theorem copies_become_links:
  assumes "chdir env w0 (dir args) = Inr w"
    and "glob env (scan_filter (Scanner_new (dir args) (pattern options))) = Inr matches"
    and "distinct matches"
    and "\<forall>p \<in> set matches. abs_norm p"
    and "\<forall>p \<in> set matches. \<exists>c. files w0 p = Some (RegFile c)"
    and "\<not> dryRun options"
    and "failure (run env s1 s2 options args w0) = None"
    and "(k, src # dupes) \<in> set (duplicatesMap (run env s1 s2 options args w0))"
    and "d \<in> set dupes"
  shows "createSymlinksForDuplicate (cwd w) (src # dupes) =
           concat (map (\<lambda>dupe. [Unlink (path dupe),
              Symlink (path_relative (cwd w) (path_dirname (path dupe)) (path src)) (path dupe)])
            dupes)
       \<and> files (final (run env s1 s2 options args w0)) (path d) =
           Some (SymLink (path_relative (cwd w) (path_dirname (path d)) (path src)))
       \<and> files (final (run env s1 s2 options args w0)) (path src) = files w0 (path src)
       \<and> readFileAsync env (final (run env s1 s2 options args w0)) (path d) =
           readFileAsync env (final (run env s1 s2 options args w0)) (path src)
       \<and> (\<exists>c. files w0 (path src) = Some (RegFile c) \<and>
               readFileAsync env (final (run env s1 s2 options args w0)) (path d) = Inr c)"
proof -
  let ?r = "run env s1 s2 options args w0"
  let ?base = "cwd w"
  let ?F = "createSymlinksForDuplicate ?base"
  from run_grouping_succeeds[OF assms(7,1,2)] obtain dm where
    pop: "populateDuplicates env w s1 (map DiscoveredFile_new matches) [] = (None, dm)" .
  note R = run_after_grouping[OF assms(1,2) pop, of s2]
  let ?dm = "removeUnique dm"
  have fw: "files w = files w0"
    using assms(1) by (auto simp: chdir_def split: option.splits)
  have mem: "(k, src # dupes) \<in> set ?dm" using assms(8) R(1) by simp
  then have ne: "?dm \<noteq> []" by auto
  have ds: "d \<in> set (src # dupes)" "src \<in> set (src # dupes)" using assms(9) by simp_all
  note M = final_index_member[OF pop assms(4) mem]
  \<comment> \<open>the run has made the calls of all groups, interleaved\<close>
  let ?merged = "interleave s2 (map (\<lambda>(sha, d). ?F d) ?dm)"
  have "createSymlinks env s2 ?dm w = (None, final ?r)"
    using R(3,4) assms(6,7) ne by (metis prod.collapse)
  then have ex: "exec_ops env ?merged w = (None, final ?r)"
    by (simp add: createSymlinks_def)
  \<comment> \<open>the calls on the path of the copy are its removal and then the link\<close>
  have "filter (\<lambda>c. op_key ?base c = path d) ?merged = [Unlink (path d)] @
       [Symlink (path_relative ?base (path_dirname (path d)) (path src)) (path d)]"
    using calls_on_copy[OF pop assms(3,4) mem assms(9), of ?base s2]
    by (simp add: replace_calls_def)
  then have link: "files (final ?r) (path d) =
      Some (SymLink (path_relative ?base (path_dirname (path d)) (path src)))"
    by (rule exec_ops_last_symlink[OF ex])
  \<comment> \<open>no call is made on the path of the first member\<close>
  have "path src \<notin> op_key ?base ` set ?merged"
    by (rule no_call_on_source[OF pop assms(3,4) mem])
  then have "files (final ?r) (path src) = files w (path src)"
    by (rule exec_ops_frame[OF ex])
  then have kept: "files (final ?r) (path src) = files w0 (path src)"
    using fw by simp
  \<comment> \<open>reading through the link\<close>
  have sm: "path src \<in> set matches" "path d \<in> set matches"
    using M(1)[OF ds(2)] M(1)[OF ds(1)] by simp_all
  then obtain c where c: "files w0 (path src) = Some (RegFile c)" using assms(5) by blast
  have an: "abs_norm (path src)" "abs_norm (path d)" using sm assms(4) by auto
  have nf: "read_fault env (path src) = None" "read_fault env (path d) = None"
    using M(2)[OF ds(2)] M(2)[OF ds(1)] by (auto dest: digest_of_read_fault)
  have rs: "readFileAsync env (final ?r) (path src) = Inr c"
    using nf(1) an(1) kept c by (simp add: readFileAsync_def path_resolve_abs_norm follow_regular)
  have "readFileAsync env (final ?r) (path d) = follow (Suc 39) (files (final ?r)) (path d)"
    using nf(2) an(2) by (simp add: readFileAsync_def path_resolve_abs_norm)
  also have "\<dots> = follow 39 (files (final ?r))
       (path_resolve (path_dirname (path d))
          (path_relative ?base (path_dirname (path d)) (path src)))"
    using link by (rule follow_link)
  also have "\<dots> = follow 39 (files (final ?r)) (path src)"
    by (simp only: link_leads_back[OF an(2) an(1)])
  also have "\<dots> = Inr c" using kept c by (simp add: follow_regular)
  finally have rd: "readFileAsync env (final ?r) (path d) = Inr c" .
  have calls: "createSymlinksForDuplicate (cwd w) (src # dupes) =
           concat (map (\<lambda>dupe. [Unlink (path dupe),
              Symlink (path_relative (cwd w) (path_dirname (path dupe)) (path src)) (path dupe)])
            dupes)"
    by (simp add: createSymlinksForDuplicate_def)
  from calls link kept rs rd c show ?thesis by simp
qed

text \<open>
  The run over the two identical files: \<^verbatim>\<open>/d/b.txt\<close> becomes a link to \<^verbatim>\<open>a.txt\<close>, and
  reading it gives \<^verbatim>\<open>hello\<close>.
\<close>

theorem copies_become_links_witness:
  "chdir env_ab world_ab ''/d'' = Inr world_ab
   \<and> glob env_ab (scan_filter (Scanner_new ''/d'' [])) = Inr [''/d/a.txt'', ''/d/b.txt'']
   \<and> distinct [''/d/a.txt'', ''/d/b.txt'']
   \<and> abs_norm ''/d/a.txt'' \<and> abs_norm ''/d/b.txt''
   \<and> files world_ab ''/d/a.txt'' = Some (RegFile ''hello'')
   \<and> files world_ab ''/d/b.txt'' = Some (RegFile ''hello'')
   \<and> \<not> dryRun \<lparr>dryRun = False, pattern = []\<rparr>
   \<and> failure (run env_ab [] [] \<lparr>dryRun = False, pattern = []\<rparr> \<lparr>dir = ''/d''\<rparr> world_ab) = None
   \<and> duplicatesMap (run env_ab [] [] \<lparr>dryRun = False, pattern = []\<rparr> \<lparr>dir = ''/d''\<rparr> world_ab) = dm_ab
   \<and> files (final (run env_ab [] [] \<lparr>dryRun = False, pattern = []\<rparr> \<lparr>dir = ''/d''\<rparr> world_ab)) ''/d/b.txt''
       = Some (SymLink ''a.txt'')
   \<and> files (final (run env_ab [] [] \<lparr>dryRun = False, pattern = []\<rparr> \<lparr>dir = ''/d''\<rparr> world_ab)) ''/d/a.txt''
       = Some (RegFile ''hello'')
   \<and> readFileAsync env_ab
         (final (run env_ab [] [] \<lparr>dryRun = False, pattern = []\<rparr> \<lparr>dir = ''/d''\<rparr> world_ab)) ''/d/b.txt''
       = Inr ''hello''"
proof -
  let ?o = "\<lparr>dryRun = False, pattern = []\<rparr>"
  let ?a = "\<lparr>dir = ''/d''\<rparr>"
  let ?r = "run env_ab [] [] ?o ?a world_ab"
  have p: "path_resolve ''/d'' ''/d'' = ''/d''" by code_simp
  have h1: "chdir env_ab world_ab (dir ?a) = Inr world_ab"
    by (simp add: chdir_def env_ab_def world_ab_def p)
  have h2: "glob env_ab (scan_filter (Scanner_new (dir ?a) (pattern ?o))) = Inr [''/d/a.txt'', ''/d/b.txt'']"
    by code_simp
  have h3: "distinct [''/d/a.txt'', ''/d/b.txt'']" by simp
  have an: "abs_norm ''/d/a.txt''" "abs_norm ''/d/b.txt''" by code_simp+
  then have h4: "\<forall>p \<in> set [''/d/a.txt'', ''/d/b.txt'']. abs_norm p" by simp
  have fa: "files world_ab ''/d/a.txt'' = Some (RegFile ''hello'')"
    and fb: "files world_ab ''/d/b.txt'' = Some (RegFile ''hello'')"
    by (simp_all add: world_ab_def)
  then have h5: "\<forall>p \<in> set [''/d/a.txt'', ''/d/b.txt'']. \<exists>c. files world_ab p = Some (RegFile c)"
    by simp
  have h6: "\<not> dryRun ?o" by simp
  have h7: "failure ?r = None" by code_simp
  have dm: "duplicatesMap ?r = dm_ab" by code_simp
  then have h8: "(''hello'', hashed ''hello'' ''/d/a.txt'' # [hashed ''hello'' ''/d/b.txt''])
                  \<in> set (duplicatesMap ?r)"
    by (simp add: dm_ab_def)
  have h9: "hashed ''hello'' ''/d/b.txt'' \<in> set [hashed ''hello'' ''/d/b.txt'']" by simp
  have rel: "path_relative ''/d'' (path_dirname ''/d/b.txt'') ''/d/a.txt'' = ''a.txt''" by code_simp
  have c: "cwd world_ab = ''/d''" by (simp add: world_ab_def)
  note T = copies_become_links[OF h1 h2 h3 h4 h5 h6 h7 h8 h9]
  from T have l: "files (final ?r) ''/d/b.txt'' = Some (SymLink ''a.txt'')"
    by (simp add: hashed_def rel c)
  from T have k: "files (final ?r) ''/d/a.txt'' = Some (RegFile ''hello'')"
    by (simp add: hashed_def fa)
  from T have rd: "readFileAsync env_ab (final ?r) ''/d/b.txt'' = Inr ''hello''"
    by (auto simp: hashed_def fa)
  from h1 h2 an fa fb h7 dm l k rd show ?thesis by simp
qed

text \<open>
  Claim C5. Once the grouping pass is through, \<^verbatim>\<open>removeUnique\<close> deletes exactly the groups
  of one file from the index. The index it leaves is the one the run goes on with: every
  group in it has two members or more, the dry-run printer prints from it, and the symbolic
  links are made from it.
\<close>

theorem removeUnique_drops_singletons:
  assumes "chdir env w0 (dir args) = Inr w"
    and "glob env (scan_filter (Scanner_new (dir args) (pattern options))) = Inr matches"
    and "populateDuplicates env w s1 (map DiscoveredFile_new matches) [] = (None, dm)"
  shows "removeUnique dm = filter (\<lambda>(k, g). length g \<noteq> 1) dm
       \<and> (\<forall>(k, g) \<in> set (removeUnique dm). 2 \<le> length g)
       \<and> duplicatesMap (run env s1 s2 options args w0) = removeUnique dm
       \<and> (dryRun options \<longrightarrow>
            stdout (run env s1 s2 options args w0) =
              summary env (length matches) (length dm) (length (removeUnique dm)) @
              printDuplicates env (cwd w) (removeUnique dm))
       \<and> (\<not> dryRun options \<and> removeUnique dm \<noteq> [] \<longrightarrow>
            final (run env s1 s2 options args w0) =
              snd (createSymlinks env s2 (removeUnique dm) w))"
proof -
  note G = populateDuplicates_groups[OF assms(3)]
  have f: "removeUnique dm = filter (\<lambda>(k, g). length g \<noteq> 1) dm"
    using G(1) by (simp add: removeUnique_filter index_ok_def)
  have "2 \<le> length g" if "(k, g) \<in> set (removeUnique dm)" for k g
  proof -
    from that f have "(k, g) \<in> set dm" "length g \<noteq> 1" by auto
    moreover from this G(1) have "g \<noteq> []" by (auto simp: index_ok_def)
    ultimately have "length g \<noteq> 0" "length g \<noteq> 1" by auto
    then show ?thesis by arith
  qed
  then have "\<forall>(k, g) \<in> set (removeUnique dm). 2 \<le> length g" by auto
  with f run_after_grouping[OF assms, of s2] show ?thesis by simp
qed

text \<open>
  Three files, two of them identical: the group of \<^verbatim>\<open>/d/c.txt\<close> is dropped, the other
  group stays and is what the dry run prints.
\<close>

theorem removeUnique_drops_singletons_witness:
  "chdir env_abc world_abc ''/d'' = Inr world_abc
   \<and> glob env_abc (scan_filter (Scanner_new ''/d'' [])) = Inr [''/d/a.txt'', ''/d/b.txt'', ''/d/c.txt'']
   \<and> populateDuplicates env_abc world_abc []
        (map DiscoveredFile_new [''/d/a.txt'', ''/d/b.txt'', ''/d/c.txt'']) [] = (None, dm_abc)
   \<and> removeUnique dm_abc = dm_ab
   \<and> removeUnique dm_abc = filter (\<lambda>(k, g). length g \<noteq> 1) dm_abc
   \<and> duplicatesMap (run env_abc [] [] \<lparr>dryRun = True, pattern = []\<rparr> \<lparr>dir = ''/d''\<rparr> world_abc) = dm_ab"
proof -
  have p: "path_resolve ''/d'' ''/d'' = ''/d''" by code_simp
  have h1: "chdir env_abc world_abc (dir \<lparr>dir = ''/d''\<rparr>) = Inr world_abc"
    by (simp add: chdir_def env_abc_def env_ab_def world_abc_def world_ab_def p)
  have h2: "glob env_abc (scan_filter (Scanner_new (dir \<lparr>dir = ''/d''\<rparr>)
              (pattern \<lparr>dryRun = True, pattern = []\<rparr>))) = Inr [''/d/a.txt'', ''/d/b.txt'', ''/d/c.txt'']"
    by code_simp
  have h3: "populateDuplicates env_abc world_abc []
        (map DiscoveredFile_new [''/d/a.txt'', ''/d/b.txt'', ''/d/c.txt'']) [] = (None, dm_abc)"
    by code_simp
  have r: "removeUnique dm_abc = dm_ab" by code_simp
  from removeUnique_drops_singletons[OF h1 h2 h3, of "[]"] h1 h2 h3 r show ?thesis by simp
qed

text \<open>
  Claim C6. A dry run leaves the file system as it found it, whatever the input and
  whether or not the run fails; so does a run that is not dry and ends without a
  duplicate group in the index.
\<close>

theorem dry_run_leaves_files:
  "dryRun options \<or> duplicatesMap (run env s1 s2 options args w0) = [] \<Longrightarrow>
   files (final (run env s1 s2 options args w0)) = files w0"
  by (auto simp: run_def chdir_def Let_def split: sum.splits prod.splits option.splits if_splits)

text \<open>
  The dry run over the two identical files, and the run that is not dry over
  \<^verbatim>\<open>/d/c.txt\<close> alone.
\<close>

theorem dry_run_leaves_files_witness:
  "dryRun \<lparr>dryRun = True, pattern = []\<rparr>
   \<and> files (final (run env_ab [] [] \<lparr>dryRun = True, pattern = []\<rparr> \<lparr>dir = ''/d''\<rparr> world_ab)) = files world_ab
   \<and> duplicatesMap (run env_c [] [] \<lparr>dryRun = False, pattern = []\<rparr> \<lparr>dir = ''/d''\<rparr> world_abc) = []
   \<and> files (final (run env_c [] [] \<lparr>dryRun = False, pattern = []\<rparr> \<lparr>dir = ''/d''\<rparr> world_abc)) = files world_abc"
proof -
  have d: "duplicatesMap (run env_c [] [] \<lparr>dryRun = False, pattern = []\<rparr> \<lparr>dir = ''/d''\<rparr> world_abc) = []"
    by code_simp
  from dry_run_leaves_files[of "\<lparr>dryRun = True, pattern = []\<rparr>" env_ab "[]" "[]" "\<lparr>dir = ''/d''\<rparr>" world_ab]
       dry_run_leaves_files[of "\<lparr>dryRun = False, pattern = []\<rparr>" env_c "[]" "[]" "\<lparr>dir = ''/d''\<rparr>" world_abc]
       d
  show ?thesis by simp
qed

text \<open>
  Claim C7. Replacing a copy is not atomic. In this run the copy \<^verbatim>\<open>/d/x2\<close> of the first
  group is replaced by a link; in the second group the copy \<^verbatim>\<open>/d/y2\<close> is removed, the
  link cannot be made, and the run ends with this error: nothing is left at \<^verbatim>\<open>/d/y2\<close>,
  the link at \<^verbatim>\<open>/d/x2\<close> stays, and the line that reports the end is not printed.
\<close>

theorem replacement_not_atomic:
  "unlink_fault env_xy ''/d/y2'' = None
   \<and> symlink_fault env_xy ''/d/y2'' = Some ENOSPC
   \<and> files world_xy ''/d/y2'' = Some (RegFile ''B'')
   \<and> failure (run env_xy [] [] \<lparr>dryRun = False, pattern = []\<rparr> \<lparr>dir = ''/d''\<rparr> world_xy) = Some ENOSPC
   \<and> files (final (run env_xy [] [] \<lparr>dryRun = False, pattern = []\<rparr> \<lparr>dir = ''/d''\<rparr> world_xy)) ''/d/y2'' = None
   \<and> files (final (run env_xy [] [] \<lparr>dryRun = False, pattern = []\<rparr> \<lparr>dir = ''/d''\<rparr> world_xy)) ''/d/x2''
       = Some (SymLink ''x1'')
   \<and> files (final (run env_xy [] [] \<lparr>dryRun = False, pattern = []\<rparr> \<lparr>dir = ''/d''\<rparr> world_xy)) ''/d/y1''
       = Some (RegFile ''B'')
   \<and> stdout (run env_xy [] [] \<lparr>dryRun = False, pattern = []\<rparr> \<lparr>dir = ''/d''\<rparr> world_xy) =
       [''Scanning...'', ''Matched 4 files'', ''Looking for duplicates...'',
        ''Found 2 unique files'', ''Found 2 files with 0 copies'', ''Creating symlinks...'']"
  by code_simp




text \<open>
  Claim C10. The copies of one group are replaced one after the other, in the order of the
  group. When the task of a group fails, it fails at one copy: the copies before it are
  links to the first member; at the failing copy either nothing has changed (the removal
  failed) or nothing is left (the link could not be made); the copies after it, and the
  first member, are as they were. (With the tasks of the other groups interleaved the
  later copies are spared as well: \<open>failing_run_spares_later_copies\<close>.)
\<close>

theorem later_copies_untouched:
  assumes "exec_ops env (createSymlinksForDuplicate (cwd w) (src # dupes)) w = (Some e, w')"
    and "distinct (map (\<lambda>f. path_resolve (cwd w) (path f)) (src # dupes))"
  shows "\<exists>done d rest. dupes = done @ d # rest
     \<and> (\<forall>x \<in> set done. files w' (path_resolve (cwd w) (path x)) =
           Some (SymLink (path_relative (cwd w) (path_dirname (path x)) (path src))))
     \<and> (files w' (path_resolve (cwd w) (path d)) = files w (path_resolve (cwd w) (path d))
          \<or> files w' (path_resolve (cwd w) (path d)) = None)
     \<and> (\<forall>x \<in> set rest. files w' (path_resolve (cwd w) (path x)) =
           files w (path_resolve (cwd w) (path x)))
     \<and> files w' (path_resolve (cwd w) (path src)) = files w (path_resolve (cwd w) (path src))"
proof -
  let ?K = "\<lambda>f. path_resolve (cwd w) (path f)"
  let ?calls = "replace_calls (cwd w) src"
  from assms(1) have "exec_ops env (concat (map ?calls dupes)) w = (Some e, w')"
    by (simp add: createSymlinksForDuplicate_calls)
  from exec_ops_fails_in[OF this] obtain "done" d rest w1 where
    sp: "dupes = done @ d # rest"
    and ok: "exec_ops env (concat (map ?calls done)) w = (None, w1)"
    and bad: "exec_ops env (?calls d) w1 = (Some e, w')"
    by blast
  have c1: "cwd w1 = cwd w" using ok by (rule exec_ops_cwd)
  have dd: "distinct (map ?K done)" "?K d \<notin> ?K ` set done" "?K d \<notin> ?K ` set rest"
    "?K ` set done \<inter> ?K ` set rest = {}" "?K src \<notin> ?K ` set done" "?K src \<noteq> ?K d"
    using assms(2) sp by auto
  have after: "files w' \<kappa> = files w1 \<kappa>" if "\<kappa> \<noteq> ?K d" for \<kappa>
    using exec_ops_frame[OF bad, of \<kappa>] that c1 by (simp add: op_key_replace_calls)
  have before: "files w1 \<kappa> = files w \<kappa>" if "\<kappa> \<notin> ?K ` set done" for \<kappa>
    using exec_ops_frame[OF ok, of \<kappa>] that op_key_concat_replace_calls[of "cwd w" src "done"]
    by simp
  have 1: "files w' (?K x) = Some (SymLink (path_relative (cwd w) (path_dirname (path x)) (path src)))"
    if "x \<in> set done" for x
  proof -
    have "?K x \<noteq> ?K d" using that dd(2) by (metis imageI)
    then show ?thesis using after replaced_copies[OF ok dd(1) that] by simp
  qed
  have 2: "files w' (?K d) = files w (?K d) \<or> files w' (?K d) = None"
  proof (cases "unlinkAsync env w1 (path d)")
    case (Inl e')
    with bad have "w' = w1" by (simp add: replace_calls_def)
    then show ?thesis using before[OF dd(2)] by simp
  next
    case (Inr w2)
    then have n: "files w2 (?K d) = None"
      by (auto simp: unlinkAsync_def c1 split: option.splits)
    from Inr bad have "w' = w2"
      by (auto simp: replace_calls_def split: sum.splits)
    with n show ?thesis by simp
  qed
  have 3: "files w' (?K x) = files w (?K x)" if "x \<in> set rest" for x
  proof -
    have "?K x \<in> ?K ` set rest" using that by (rule imageI)
    then have "?K x \<noteq> ?K d" "?K x \<notin> ?K ` set done" using dd(3,4) by (metis, blast)
    then show ?thesis using after before by simp
  qed
  have 4: "files w' (?K src) = files w (?K src)"
    using after[OF dd(6)] before[OF dd(5)] by simp
  from sp 1 2 3 4 show ?thesis by blast
qed

text \<open>
  Four identical files; the link at \<^verbatim>\<open>/d/c2\<close> cannot be made. \<^verbatim>\<open>/d/c1\<close> is a link,
  nothing is left at \<^verbatim>\<open>/d/c2\<close>, and \<^verbatim>\<open>/d/c3\<close> is the file it was.
\<close>

theorem later_copies_untouched_witness:
  "fst (exec_ops env_g (createSymlinksForDuplicate (cwd world_g) group_g) world_g) = Some ENOSPC
   \<and> distinct (map (\<lambda>f. path_resolve (cwd world_g) (path f)) group_g)
   \<and> files (snd (exec_ops env_g (createSymlinksForDuplicate (cwd world_g) group_g) world_g))
         (path_resolve (cwd world_g) (path (hd group_g))) =
       files world_g (path_resolve (cwd world_g) (path (hd group_g)))
   \<and> files (snd (exec_ops env_g (createSymlinksForDuplicate (cwd world_g) group_g) world_g)) ''/d/c1''
       = Some (SymLink ''s'')
   \<and> files (snd (exec_ops env_g (createSymlinksForDuplicate (cwd world_g) group_g) world_g)) ''/d/c2''
       = None
   \<and> files (snd (exec_ops env_g (createSymlinksForDuplicate (cwd world_g) group_g) world_g)) ''/d/c3''
       = Some (RegFile ''A'')"
proof -
  let ?r = "exec_ops env_g (createSymlinksForDuplicate (cwd world_g) group_g) world_g"
  have g: "group_g = hashed ''A'' ''/d/s'' # tl group_g" by (simp add: group_g_def)
  have f: "fst ?r = Some ENOSPC" by code_simp
  then have h1: "exec_ops env_g (createSymlinksForDuplicate (cwd world_g)
                   (hashed ''A'' ''/d/s'' # tl group_g)) world_g = (Some ENOSPC, snd ?r)"
    using g by (metis prod.collapse)
  have d: "distinct (map (\<lambda>f. path_resolve (cwd world_g) (path f)) group_g)" by code_simp
  then have h2: "distinct (map (\<lambda>f. path_resolve (cwd world_g) (path f))
                   (hashed ''A'' ''/d/s'' # tl group_g))"
    using g by simp
  have c1: "files (snd ?r) ''/d/c1'' = Some (SymLink ''s'')" by code_simp
  have c2: "files (snd ?r) ''/d/c2'' = None" by code_simp
  have c3: "files (snd ?r) ''/d/c3'' = Some (RegFile ''A'')" by code_simp
  from later_copies_untouched[OF h1 h2] f d c1 c2 c3 show ?thesis by (auto simp: group_g_def)
qed

end
